theory Spec2Isabelle
  imports Main "HOL-Library.Word"
begin

section \<open>The pipeline state machine (state\_machine.cpp)\<close>

text \<open>
  \<^verbatim>\<open>EdnaStateMachine::State\<close> and \<^verbatim>\<open>EdnaStateMachine::Event\<close>, constructor for
  enumerator, in the order of the header.
\<close>

datatype State =
  Boot | AwaitSpeech | CapturingSpeech | Transcribing | Thinking | Speaking | Error | Shutdown

datatype Event =
  Start | SpeechStart | SpeechEndQueued | TranscriptReady | ReplyReady | TtsDone | Stop
  | NoCommand | Fail

text \<open>
  \<^verbatim>\<open>transition_locked(cur, ev, note, did_transition)\<close>: the switch on \<^verbatim>\<open>cur\<close>, one
  equation per \<^verbatim>\<open>case\<close>. The result pairs the returned state with the out-parameter
  \<^verbatim>\<open>did_transition\<close>; a \<^verbatim>\<open>break\<close> reaches the final \<^verbatim>\<open>return cur\<close> with the flag still
  false. The note is passed through and never read.
\<close>

fun transition_locked :: "State \<Rightarrow> Event \<Rightarrow> string \<Rightarrow> State \<times> bool" where
  "transition_locked Boot ev note =
     (if ev = Start then (AwaitSpeech, True) else (Boot, False))"
| "transition_locked AwaitSpeech ev note =
     (if ev = SpeechStart then (CapturingSpeech, True) else (AwaitSpeech, False))"
| "transition_locked CapturingSpeech ev note =
     (if ev = SpeechEndQueued then (Transcribing, True) else (CapturingSpeech, False))"
| "transition_locked Transcribing ev note =
     (if ev = TranscriptReady then (Thinking, True)
      else if ev = NoCommand then (AwaitSpeech, True)
      else (Transcribing, False))"
| "transition_locked Thinking ev note =
     (if ev = ReplyReady then (Speaking, True)
      else if ev = NoCommand then (AwaitSpeech, True)
      else (Thinking, False))"
| "transition_locked Speaking ev note =
     (if ev = TtsDone then (AwaitSpeech, True) else (Speaking, False))"
| "transition_locked Error ev note =
     (if ev = Start then (AwaitSpeech, True) else (Error, False))"
| "transition_locked Shutdown ev note = (Shutdown, False)"

text \<open>
  \<^verbatim>\<open>dispatch(ev, note)\<close> on the member \<^verbatim>\<open>st_\<close>. Under the mutex it computes the target and
  stores it when \<^verbatim>\<open>did\<close> is set; after the lock is released it calls the observer with
  \<^verbatim>\<open>(from, to, ev, note)\<close> when a transition happened. The model returns the new \<^verbatim>\<open>st_\<close>
  and the observer call, if any (the observer is installed once in main.cpp and only logs).
\<close>

type_synonym observer_call = "State \<times> State \<times> Event \<times> string"

definition dispatch_obs :: "Event \<Rightarrow> string \<Rightarrow> State \<Rightarrow> State \<times> observer_call option" where
  "dispatch_obs ev note st =
     (let from = st;
          (to, did) = transition_locked st ev note;
          st' = (if did then to else st)
      in (st', if did then Some (from, to, ev, note) else None))"

definition dispatch :: "Event \<Rightarrow> string \<Rightarrow> State \<Rightarrow> State" where
  "dispatch ev note st = fst (dispatch_obs ev note st)"

text \<open>A sequence of \<^verbatim>\<open>dispatch\<close> calls, each with its note, applied in order.\<close>

fun dispatch_all :: "(Event \<times> string) list \<Rightarrow> State \<Rightarrow> State" where
  "dispatch_all [] st = st"
| "dispatch_all ((ev, note) # rest) st = dispatch_all rest (dispatch ev note st)"

text \<open>The member initialiser \<^verbatim>\<open>State st_ = State::Boot\<close>.\<close>

definition initial_state :: State where
  "initial_state = Boot"

subsection \<open>The transition table of the specification\<close>

text \<open>
  The nine rows of the specification's table, as data, and the pure step it describes:
  a listed pair moves to the row's target, every other pair is a no-op.
\<close>

definition spec_table :: "((State \<times> Event) \<times> State) list" where
  "spec_table =
     [((Boot, Start), AwaitSpeech),
      ((AwaitSpeech, SpeechStart), CapturingSpeech),
      ((CapturingSpeech, SpeechEndQueued), Transcribing),
      ((Transcribing, TranscriptReady), Thinking),
      ((Transcribing, NoCommand), AwaitSpeech),
      ((Thinking, ReplyReady), Speaking),
      ((Thinking, NoCommand), AwaitSpeech),
      ((Speaking, TtsDone), AwaitSpeech),
      ((Error, Start), AwaitSpeech)]"

definition spec_step :: "State \<Rightarrow> Event \<Rightarrow> State" where
  "spec_step s ev = (case map_of spec_table (s, ev) of Some t \<Rightarrow> t | None \<Rightarrow> s)"

section \<open>Properties of the state machine\<close>

lemma dispatch_eq_spec_step: "dispatch ev note s = spec_step s ev"
  by (cases s; cases ev) (simp_all add: dispatch_def dispatch_obs_def spec_step_def spec_table_def)

lemma dispatch_all_eq_foldl:
  "dispatch_all evs s = foldl spec_step s (map fst evs)"
  by (induction evs arbitrary: s) (auto simp: dispatch_eq_spec_step)

text \<open>
  Claim C1. Whatever events are dispatched, with whatever notes, starting from the initial
  state \<open>Boot\<close>, the machine's state is the left fold of the specification's nine-row table
  over the events; a pair the table does not list leaves the state as it is.
\<close>

theorem C1_dispatch_folds_table:
  "dispatch_all evs initial_state = foldl spec_step Boot (map fst evs)"
  by (simp add: dispatch_all_eq_foldl initial_state_def)

lemma dispatch_never_enters_Error:
  "s \<noteq> Error \<Longrightarrow> dispatch ev note s \<noteq> Error"
  by (cases s; cases ev) (simp_all add: dispatch_def dispatch_obs_def)

lemma dispatch_never_enters_Shutdown:
  "s \<noteq> Shutdown \<Longrightarrow> dispatch ev note s \<noteq> Shutdown"
  by (cases s; cases ev) (simp_all add: dispatch_def dispatch_obs_def)

lemma dispatch_all_avoids:
  "s \<noteq> Error \<Longrightarrow> s \<noteq> Shutdown \<Longrightarrow>
   dispatch_all evs s \<noteq> Error \<and> dispatch_all evs s \<noteq> Shutdown"
proof (induction evs arbitrary: s)
  case Nil
  then show ?case by simp
next
  case (Cons e evs)
  obtain ev nt where e: "e = (ev, nt)" by (cases e)
  from Cons.prems have "dispatch ev nt s \<noteq> Error" "dispatch ev nt s \<noteq> Shutdown"
    by (simp_all add: dispatch_never_enters_Error dispatch_never_enters_Shutdown)
  then show ?case using Cons.IH e by simp
qed

lemma dispatch_Stop: "dispatch Stop note s = s"
  by (cases s) (simp_all add: dispatch_def dispatch_obs_def)

lemma dispatch_Fail: "dispatch Fail note s = s"
  by (cases s) (simp_all add: dispatch_def dispatch_obs_def)

text \<open>
  Claim C10. From \<open>Boot\<close> no sequence of dispatched events reaches \<open>Error\<close> or \<open>Shutdown\<close>,
  and \<open>Stop\<close> and \<open>Fail\<close> leave every state unchanged and call no observer; so the
  \<open>Stop\<close> that main.cpp dispatches with the note \<open>SIGINT\<close> does not change the state.
\<close>

theorem C10_no_Error_no_Shutdown_Stop_Fail_noop:
  "dispatch_all evs initial_state \<noteq> Error
   \<and> dispatch_all evs initial_state \<noteq> Shutdown
   \<and> dispatch_obs Stop note s = (s, None)
   \<and> dispatch_obs Fail note s = (s, None)
   \<and> dispatch Stop ''SIGINT'' s = s"
proof -
  have a: "dispatch_all evs initial_state \<noteq> Error \<and> dispatch_all evs initial_state \<noteq> Shutdown"
    by (rule dispatch_all_avoids) (simp_all add: initial_state_def)
  have b: "dispatch_obs Stop note s = (s, None)"
    by (cases s) (simp_all add: dispatch_obs_def)
  have c: "dispatch_obs Fail note s = (s, None)"
    by (cases s) (simp_all add: dispatch_obs_def)
  show ?thesis using a b c by (simp add: dispatch_Stop)
qed


section \<open>Text utilities (main.cpp)\<close>

text \<open>
  A \<^verbatim>\<open>std::string\<close> is a list of bytes. The character classes are those of \<^verbatim>\<open><cctype>\<close> in the
  "C" locale (the program never calls \<^verbatim>\<open>setlocale\<close>), applied to an \<^verbatim>\<open>unsigned char\<close>:
  \<^verbatim>\<open>isspace\<close> holds of the space and of \<^verbatim>\<open>\t \n \v \f \r\<close> (codes 9 to 13), \<^verbatim>\<open>isalnum\<close> of the
  ASCII digits and letters, and \<^verbatim>\<open>tolower\<close> moves \<^verbatim>\<open>A..Z\<close> to \<^verbatim>\<open>a..z\<close> and nothing else.
\<close>

definition isspace :: "char \<Rightarrow> bool" where
  "isspace c = (let n = (of_char c :: nat) in n = 32 \<or> (9 \<le> n \<and> n \<le> 13))"

definition isupper :: "char \<Rightarrow> bool" where
  "isupper c = (let n = (of_char c :: nat) in 65 \<le> n \<and> n \<le> 90)"

definition islower :: "char \<Rightarrow> bool" where
  "islower c = (let n = (of_char c :: nat) in 97 \<le> n \<and> n \<le> 122)"

definition isdigit :: "char \<Rightarrow> bool" where
  "isdigit c = (let n = (of_char c :: nat) in 48 \<le> n \<and> n \<le> 57)"

definition isalnum :: "char \<Rightarrow> bool" where
  "isalnum c = (isdigit c \<or> isupper c \<or> islower c)"

definition tolower :: "char \<Rightarrow> char" where
  "tolower c = (if isupper c then char_of ((of_char c :: nat) + 32) else c)"

text \<open>
  \<^verbatim>\<open>s.substr(pos, n)\<close>: the \<^verbatim>\<open>n\<close> bytes from \<^verbatim>\<open>pos\<close>, fewer when the string ends first.
  (It throws when \<^verbatim>\<open>pos > s.size()\<close>; no call below can: see \<open>trim_start_le\<close> for
  \<^verbatim>\<open>trim_ws\<close>, and a matched prefix is no longer than the string.)
\<close>

definition substr :: "string \<Rightarrow> nat \<Rightarrow> nat \<Rightarrow> string" where
  "substr s pos n = take n (drop pos s)"

text \<open>
  \<^verbatim>\<open>trim_ws\<close>: the two index loops, \<^verbatim>\<open>a\<close> moving up from 0 and \<^verbatim>\<open>b\<close> moving down from
  \<^verbatim>\<open>s.size()\<close>, then \<^verbatim>\<open>s.substr(a, b - a)\<close>.
\<close>

function trim_start :: "string \<Rightarrow> nat \<Rightarrow> nat \<Rightarrow> nat" where
  "trim_start s a b = (if a < b \<and> isspace (s ! a) then trim_start s (a + 1) b else a)"
  by pat_completeness auto
termination
  by (relation "measure (\<lambda>(s, a, b). b - a)") auto

function trim_end :: "string \<Rightarrow> nat \<Rightarrow> nat \<Rightarrow> nat" where
  "trim_end s a b = (if b > a \<and> isspace (s ! (b - 1)) then trim_end s a (b - 1) else b)"
  by pat_completeness auto
termination
  by (relation "measure (\<lambda>(s, a, b). b)") auto

declare trim_start.simps [simp del] trim_end.simps [simp del]

definition trim_ws :: "string \<Rightarrow> string" where
  "trim_ws s =
     (let a = trim_start s 0 (length s);
          b = trim_end s a (length s)
      in substr s a (b - a))"

text \<open>
  \<^verbatim>\<open>normalize\<close>. The first loop maps every byte: letters and digits and whitespace go through
  \<^verbatim>\<open>tolower\<close>, anything else becomes a space. The second loop carries \<^verbatim>\<open>out\<close> and
  \<^verbatim>\<open>prev_space\<close> (initially true) and appends one space for a run of whitespace that follows
  a non-space. The result is trimmed.
\<close>

definition normalize_char :: "char \<Rightarrow> char" where
  "normalize_char c = (if isalnum c \<or> isspace c then tolower c else CHR '' '')"

fun collapse_step :: "string \<times> bool \<Rightarrow> char \<Rightarrow> string \<times> bool" where
  "collapse_step (out, prev_space) c =
     (let sp = isspace c
      in (if sp then (if \<not> prev_space then out @ [CHR '' ''] else out) else out @ [c], sp))"

definition normalize :: "string \<Rightarrow> string" where
  "normalize inp =
     (let s = map normalize_char inp;
          out = fst (foldl collapse_step ([], True) s)
      in trim_ws out)"

text \<open>
  \<^verbatim>\<open>strip_invocation\<close>. The lambda \<^verbatim>\<open>strip_prefix\<close> tests \<^verbatim>\<open>t.rfind(pfx, 0) == 0\<close>, that is,
  whether \<^verbatim>\<open>t\<close> starts with \<^verbatim>\<open>pfx\<close>, and on success replaces \<^verbatim>\<open>t\<close> by the trimmed rest.
  The nine calls are joined by \<^verbatim>\<open>||\<close>, which stops at the first that succeeds. The result
  pairs the returned flag with the value left in the reference parameter \<^verbatim>\<open>text\<close>.
\<close>

definition strip_prefix :: "string \<Rightarrow> string \<Rightarrow> bool \<times> string" where
  "strip_prefix pfx t =
     (if take (length pfx) t = pfx then (True, trim_ws (substr t (length pfx) (length t)))
      else (False, t))"

fun strip_chain :: "string list \<Rightarrow> string \<Rightarrow> bool \<times> string" where
  "strip_chain [] t = (False, t)"
| "strip_chain (pfx # rest) t =
     (case strip_prefix pfx t of
        (True, t') \<Rightarrow> (True, t')
      | (False, t') \<Rightarrow> strip_chain rest t')"

definition invocation_prefixes :: "string list" where
  "invocation_prefixes =
     [''hey edna'', ''okay edna'', ''ok edna'', ''edna'', ''etna'', ''ewa'', ''ed'',
      ''ed nah'', ''ed na'']"

definition strip_invocation :: "string \<Rightarrow> bool \<times> string" where
  "strip_invocation text =
     (let t = normalize text;
          (invoked, t') = strip_chain invocation_prefixes t
      in if \<not> invoked then (False, text) else (True, t'))"

subsection \<open>Invocation stripping as the specification words it\<close>

text \<open>
  The specification's reading: among the listed prefixes that the normalized text starts
  with, the longest is removed, and leading whitespace is trimmed from the rest; with no
  matching prefix there is no result.
\<close>

definition spec_longest :: "string list \<Rightarrow> string" where
  "spec_longest ps = foldl (\<lambda>b p. if length b < length p then p else b) [] ps"

definition spec_strip_longest :: "string \<Rightarrow> string option" where
  "spec_strip_longest text =
     (let t = normalize text;
          ms = filter (\<lambda>p. take (length p) t = p) invocation_prefixes
      in if ms = [] then None
         else Some (dropWhile isspace (drop (length (spec_longest ms)) t)))"

section \<open>The shared pipeline state and the ASR stage (main.cpp, asr\_whisper.cpp)\<close>

text \<open>
  One record holds what the three threads of \<^verbatim>\<open>main\<close> share and what the audio loop keeps
  between iterations: the state machine's \<^verbatim>\<open>st_\<close> (field \<open>phase\<close>), the two deques
  \<^verbatim>\<open>audio_q\<close> and \<^verbatim>\<open>text_q\<close> (front of the deque first), and the audio loop's locals.
  A sample is an \<^verbatim>\<open>int16_t\<close>. The counters are C \<^verbatim>\<open>int\<close>s that stay within 0..30, so no
  wrap-around can occur; the sizes are \<^verbatim>\<open>size_t\<close>.
\<close>

type_synonym sample = "16 word"

record pipeline =
  phase :: State
  audio_q :: "sample list list"
  text_q :: "string list"
  in_speech :: bool
  voiced_run :: int
  unvoiced_run :: int
  utterance :: "sample list"
  preroll :: "sample list"
  ignore_frames :: int
  last_was_speaking :: bool

text \<open>
  \<^verbatim>\<open>WhisperASR::transcribe_16k_mono_s16\<close>. The whisper engine is opaque: its return code
  \<^verbatim>\<open>rc\<close> and the segment texts it then reports (\<open>None\<close> for a null pointer) are
  parameters, as is whether the context exists.
\<close>

definition BLANK_AUDIO :: string where
  "BLANK_AUDIO = ''[BLANK_AUDIO]''"

definition transcribe_16k_mono_s16 ::
  "bool \<Rightarrow> sample list \<Rightarrow> int \<Rightarrow> string option list \<Rightarrow> string" where
  "transcribe_16k_mono_s16 ctx_ok pcm16 rc segs =
     (if \<not> ctx_ok then []
      else if pcm16 = [] then []
      else if rc \<noteq> 0 then []
      else let out = concat (map (\<lambda>t. case t of None \<Rightarrow> [] | Some x \<Rightarrow> x) segs);
               out' = trim_ws out
           in if out' = BLANK_AUDIO then [] else out')"

text \<open>
  The ASR thread. \<open>asr_dequeue\<close> is the critical section on \<^verbatim>\<open>q_m\<close> once the wait
  returns: with a non-empty queue it takes the back element and clears the queue.
  \<open>asr_stage\<close> is the rest of the loop body for a non-empty \<^verbatim>\<open>audio\<close>, from the transcript
  the engine returned: the \<^verbatim>\<open>dispatch\<close> call it makes (event and note) and the command it
  appends to \<^verbatim>\<open>text_q\<close>, if any. \<open>asr_turn\<close> applies both to the shared state; an empty
  \<^verbatim>\<open>audio\<close> makes the loop \<^verbatim>\<open>continue\<close> with nothing dispatched.
\<close>

definition asr_dequeue :: "pipeline \<Rightarrow> sample list option \<times> pipeline" where
  "asr_dequeue s =
     (if audio_q s \<noteq> [] then (Some (last (audio_q s)), s\<lparr>audio_q := []\<rparr>)
      else (None, s))"

definition asr_stage :: "string \<Rightarrow> (Event \<times> string) \<times> string option" where
  "asr_stage transcript =
     (let txt = trim_ws transcript
      in if length txt < 2 \<or> txt = BLANK_AUDIO then ((NoCommand, ''blank audio''), None)
         else let (invoked, cmd) = strip_invocation txt
              in if \<not> invoked then ((NoCommand, ''ignored transcript''), None)
                 else let cmd' = trim_ws cmd
                      in if cmd' = [] then ((NoCommand, ''invocation only''), None)
                         else ((TranscriptReady, []), Some cmd'))"

definition asr_turn ::
  "bool \<Rightarrow> sample list \<Rightarrow> int \<Rightarrow> string option list \<Rightarrow> pipeline \<Rightarrow> pipeline" where
  "asr_turn ctx_ok audio rc segs s =
     (if audio = [] then s
      else let ((ev, nt), cmd) = asr_stage (transcribe_16k_mono_s16 ctx_ok audio rc segs);
               s' = s\<lparr>phase := dispatch ev nt (phase s)\<rparr>
           in case cmd of None \<Rightarrow> s' | Some c \<Rightarrow> s'\<lparr>text_q := text_q s' @ [c]\<rparr>)"

section \<open>The sentence splitter and the speech stage (main.cpp)\<close>

text \<open>
  \<^verbatim>\<open>split_sentences\<close>, first part. The lambda \<^verbatim>\<open>flush\<close> trims \<^verbatim>\<open>cur\<close>, clears it, and appends
  the trimmed text to \<^verbatim>\<open>out\<close> unless it is empty. The \<^verbatim>\<open>for\<close> loop over the index \<^verbatim>\<open>i\<close>
  appends each byte to \<^verbatim>\<open>cur\<close> and flushes after a \<^verbatim>\<open>.\<close>, \<^verbatim>\<open>!\<close> or \<^verbatim>\<open>?\<close> that ends the input or
  is followed by whitespace; a last \<^verbatim>\<open>flush\<close> follows the loop.
\<close>

definition flush :: "string \<times> string list \<Rightarrow> string \<times> string list" where
  "flush co =
     (let s = trim_ws (fst co)
      in ([], if s \<noteq> [] then snd co @ [s] else snd co))"

definition end_punct :: "char \<Rightarrow> bool" where
  "end_punct c = (c = CHR ''.'' \<or> c = CHR ''!'' \<or> c = CHR ''?'')"

function split_loop :: "string \<Rightarrow> nat \<Rightarrow> string \<times> string list \<Rightarrow> string \<times> string list" where
  "split_loop inp i co =
     (if i < length inp then
        let c = inp ! i;
            co' = (fst co @ [c], snd co)
        in if \<not> end_punct c then split_loop inp (i + 1) co'
           else let at_end = (i + 1 \<ge> length inp);
                    next_space = (\<not> at_end \<and> isspace (inp ! (i + 1)))
                in if at_end \<or> next_space then split_loop inp (i + 1) (flush co')
                   else split_loop inp (i + 1) co'
      else co)"
  by pat_completeness auto
termination
  by (relation "measure (\<lambda>(inp, i, co). length inp - i)") auto

declare split_loop.simps [simp del]

definition split_fragments :: "string \<Rightarrow> string list" where
  "split_fragments inp = snd (flush (split_loop inp 0 ([], [])))"

subsection \<open>The fragments as the specification words them\<close>

text \<open>
  The specification's reading of the first part: the reply is cut after every \<^verbatim>\<open>.\<close>, \<^verbatim>\<open>!\<close>
  or \<^verbatim>\<open>?\<close> that is followed by whitespace or by the end of the input; each piece is
  trimmed, and empty ones are dropped.
\<close>

fun spec_pieces :: "string \<Rightarrow> string list" where
  "spec_pieces [] = [[]]"
| "spec_pieces (c # rest) =
     (if end_punct c \<and> (rest = [] \<or> isspace (hd rest)) then [c] # spec_pieces rest
      else (case spec_pieces rest of
              [] \<Rightarrow> [[c]]
            | p # ps \<Rightarrow> (c # p) # ps))"

definition spec_fragments :: "string \<Rightarrow> string list" where
  "spec_fragments inp = filter (\<lambda>f. f \<noteq> []) (map trim_ws (spec_pieces inp))"

text \<open>
  \<^verbatim>\<open>split_sentences\<close>, second part: the soft wrap of a single fragment longer than 180
  bytes. \<^verbatim>\<open>s.rfind(' ', p)\<close> searches backwards from index \<^verbatim>\<open>p\<close> (or from the last index, when
  \<^verbatim>\<open>p\<close> is beyond it) for a space and returns its index, or \<^verbatim>\<open>npos\<close> (\<open>None\<close>). \<open>wrap_cut\<close> is the computation of
  \<^verbatim>\<open>cut\<close> in one round of the \<^verbatim>\<open>while\<close> loop, \<open>skip_space\<close> the inner loop that advances
  \<^verbatim>\<open>pos\<close> over whitespace, and the last loop copies the non-empty parts to \<^verbatim>\<open>clean\<close>.
\<close>

function rfind_space :: "string \<Rightarrow> nat \<Rightarrow> nat option" where
  "rfind_space s p =
     (if p < length s \<and> s ! p = CHR '' '' then Some p
      else if p = 0 then None
      else rfind_space s (p - 1))"
  by pat_completeness auto
termination
  by (relation "measure (\<lambda>(s, p). p)") auto

declare rfind_space.simps [simp del]

definition wrap_cut :: "string \<Rightarrow> nat \<Rightarrow> nat" where
  "wrap_cut s pos =
     (let take_n = min 180 (length s - pos)
      in case rfind_space s (pos + take_n) of
           None \<Rightarrow> pos + take_n
         | Some found \<Rightarrow> if found \<le> pos then pos + take_n else found)"

function skip_space :: "string \<Rightarrow> nat \<Rightarrow> nat" where
  "skip_space s pos = (if pos < length s \<and> isspace (s ! pos) then skip_space s (pos + 1) else pos)"
  by pat_completeness auto
termination
  by (relation "measure (\<lambda>(s, pos). length s - pos)") auto

declare skip_space.simps [simp del]

lemma skip_space_ge: "pos \<le> skip_space s pos"
proof (induction s pos rule: skip_space.induct)
  case (1 s pos)
  show ?case
  proof (cases "pos < length s \<and> isspace (s ! pos)")
    case True
    then have "skip_space s pos = skip_space s (pos + 1)" by (subst skip_space.simps) simp
    then show ?thesis using 1 True by simp
  next
    case False
    then have "skip_space s pos = pos" by (subst skip_space.simps) auto
    then show ?thesis by simp
  qed
qed

lemma rfind_space_Some:
  "rfind_space s p = Some i \<Longrightarrow>
   i \<le> p \<and> i < length s \<and> s ! i = CHR '' ''
   \<and> (\<forall>j. i < j \<and> j \<le> p \<and> j < length s \<longrightarrow> s ! j \<noteq> CHR '' '')"
proof (induction s p rule: rfind_space.induct)
  case (1 s p)
  show ?case
  proof (cases "p < length s \<and> s ! p = CHR '' ''")
    case True
    then have "rfind_space s p = Some p" by (subst rfind_space.simps) simp
    then show ?thesis using 1(2) True by auto
  next
    case False
    show ?thesis
    proof (cases "p = 0")
      case True
      then have "rfind_space s p = None" using False by (subst rfind_space.simps) auto
      then show ?thesis using 1(2) by simp
    next
      case nz: False
      then have "rfind_space s p = rfind_space s (p - 1)"
        using False by (subst rfind_space.simps) auto
      then have ih: "i \<le> p - 1 \<and> i < length s \<and> s ! i = CHR '' ''
          \<and> (\<forall>j. i < j \<and> j \<le> p - 1 \<and> j < length s \<longrightarrow> s ! j \<noteq> CHR '' '')"
        using 1 False nz by simp
      have "s ! j \<noteq> CHR '' ''" if "i < j" "j \<le> p" "j < length s" for j
      proof (cases "j = p")
        case True
        then show ?thesis using False that by auto
      next
        case False
        then have "j \<le> p - 1" using that by simp
        then show ?thesis using ih that by blast
      qed
      then show ?thesis using ih by auto
    qed
  qed
qed

lemma rfind_space_None:
  "rfind_space s p = None \<Longrightarrow> \<forall>j. j \<le> p \<and> j < length s \<longrightarrow> s ! j \<noteq> CHR '' ''"
proof (induction s p rule: rfind_space.induct)
  case (1 s p)
  have np: "\<not> (p < length s \<and> s ! p = CHR '' '')"
  proof
    assume "p < length s \<and> s ! p = CHR '' ''"
    then have "rfind_space s p = Some p" by (subst rfind_space.simps) simp
    then show False using 1(2) by simp
  qed
  show ?case
  proof (cases "p = 0")
    case True
    then show ?thesis using np by auto
  next
    case False
    then have "rfind_space s p = rfind_space s (p - 1)"
      using np by (subst rfind_space.simps) auto
    then have ih: "\<forall>j. j \<le> p - 1 \<and> j < length s \<longrightarrow> s ! j \<noteq> CHR '' ''"
      using 1 np False by simp
    have "s ! j \<noteq> CHR '' ''" if "j \<le> p" "j < length s" for j
    proof (cases "j = p")
      case True
      then show ?thesis using np that by auto
    next
      case False
      then have "j \<le> p - 1" using that by simp
      then show ?thesis using ih that by blast
    qed
    then show ?thesis by blast
  qed
qed

lemma rfind_space_le: "rfind_space s p = Some i \<Longrightarrow> i \<le> p \<and> i < length s \<and> s ! i = CHR '' ''"
  using rfind_space_Some by blast

lemma wrap_cut_bounds:
  assumes "pos < length s"
  shows "pos < wrap_cut s pos" and "wrap_cut s pos \<le> pos + min 180 (length s - pos)"
proof -
  let ?t = "min 180 (length s - pos)"
  have t: "0 < ?t" using assms by simp
  show "pos < wrap_cut s pos"
    using t by (auto simp: wrap_cut_def Let_def split: option.splits)
  show "wrap_cut s pos \<le> pos + ?t"
    using rfind_space_le[of s "pos + ?t"]
    by (auto simp: wrap_cut_def Let_def split: option.splits)
qed

function wrap_loop :: "string \<Rightarrow> nat \<Rightarrow> string list \<Rightarrow> string list" where
  "wrap_loop s pos out =
     (if pos < length s then
        let cut_at = wrap_cut s pos;
            out' = out @ [trim_ws (substr s pos (cut_at - pos))];
            pos' = skip_space s cut_at
        in wrap_loop s pos' out'
      else out)"
  by pat_completeness auto
termination
proof (relation "measure (\<lambda>(s, pos, out). length s - pos)")
  show "wf (measure (\<lambda>(s, pos, out). length s - pos))" by simp
next
  fix s :: string and pos :: nat and out x xa xb
  assume a: "pos < length s" and x: "x = wrap_cut s pos" and xb: "xb = skip_space s x"
  have "pos < x" using wrap_cut_bounds(1)[OF a] x by simp
  moreover have "x \<le> xb" using skip_space_ge xb by simp
  ultimately show "((s, xb, xa), s, pos, out) \<in> measure (\<lambda>(s, pos, out). length s - pos)"
    using a by simp
qed

declare wrap_loop.simps [simp del]

definition split_sentences :: "string \<Rightarrow> string list" where
  "split_sentences inp =
     (let out = split_fragments inp
      in if length out \<le> 1 \<and> out \<noteq> [] \<and> length (out ! 0) > 180
         then filter (\<lambda>p. p \<noteq> []) (wrap_loop (out ! 0) 0 [])
         else out)"

text \<open>
  The speech stage: the part of the brain thread's loop body from \<^verbatim>\<open>bool tts_ok = true\<close>
  to the dispatch of \<open>TtsDone\<close>. \<^verbatim>\<open>tts.speak\<close> synthesizes and plays one chunk through a
  worker process and a playback process; it is opaque, so its verdict is a parameter
  \<open>speak\<close>, a function of the index of the part and of the chunk. \<open>tts_loop\<close> is the
  \<^verbatim>\<open>for\<close> loop over \<^verbatim>\<open>parts\<close> from index \<open>i\<close> on: an empty chunk is skipped, a failed
  \<^verbatim>\<open>speak\<close> clears \<^verbatim>\<open>tts_ok\<close>, writes the failure line to stderr and leaves the loop with
  \<^verbatim>\<open>break\<close>. The result lists the chunks handed to \<^verbatim>\<open>speak\<close>, the flag, and the log lines.
\<close>

datatype tts_log = SpeakFailed | SpeakOK

fun tts_loop ::
  "(nat \<Rightarrow> string \<Rightarrow> bool) \<Rightarrow> nat \<Rightarrow> string list \<Rightarrow> string list \<times> bool \<times> tts_log list" where
  "tts_loop speak i [] = ([], True, [])"
| "tts_loop speak i (p # rest) =
     (let chunk = trim_ws p
      in if chunk = [] then tts_loop speak (i + 1) rest
         else if \<not> speak i chunk then ([chunk], False, [SpeakFailed])
         else let (spoken, ok, lg) = tts_loop speak (i + 1) rest
              in (chunk # spoken, ok, lg))"

record speech_result =
  attempted :: "string list"
  tts_ok :: bool
  logged :: "tts_log list"
  dispatched :: "(Event \<times> string) list"

definition speech_stage :: "bool \<Rightarrow> (nat \<Rightarrow> string \<Rightarrow> bool) \<Rightarrow> string \<Rightarrow> speech_result" where
  "speech_stage enabled speak reply =
     (let (spoken, ok, lg) =
            (if enabled then
               let parts = split_sentences reply;
                   (spoken, ok, lg) = tts_loop speak 0 parts
               in (spoken, ok, if ok then lg @ [SpeakOK] else lg)
             else ([], True, []))
      in \<lparr>attempted = spoken, tts_ok = ok, logged = lg, dispatched = [(TtsDone, [])]\<rparr>)"

section \<open>The audio loop (main.cpp)\<close>

text \<open>
  The constants of \<^verbatim>\<open>main\<close>: \<^verbatim>\<open>sr = 16000\<close>, \<^verbatim>\<open>frame_ms = 20\<close>,
  \<^verbatim>\<open>frame_samples = (sr * frame_ms) / 1000\<close>, \<^verbatim>\<open>tts_cooldown_ms = 600\<close>,
  \<^verbatim>\<open>cooldown_frames = (tts_cooldown_ms + frame_ms - 1) / frame_ms\<close>, \<^verbatim>\<open>preroll_frames = 15\<close>,
  \<^verbatim>\<open>max_preroll_samples = preroll_frames * frame_samples\<close>, \<^verbatim>\<open>start_trigger = 3\<close> and
  \<^verbatim>\<open>stop_trigger = 20\<close>.
\<close>

definition sr :: nat where
  "sr = 16000"

definition frame_ms :: nat where
  "frame_ms = 20"

definition frame_samples :: nat where
  "frame_samples = (sr * frame_ms) div 1000"

definition cooldown_frames :: int where
  "cooldown_frames = (600 + int frame_ms - 1) div int frame_ms"

definition max_preroll_samples :: nat where
  "max_preroll_samples = 15 * frame_samples"

definition start_trigger :: int where
  "start_trigger = 3"

definition stop_trigger :: int where
  "stop_trigger = 20"

text \<open>
  What one iteration of the \<^verbatim>\<open>while\<close> loop receives from outside: the return value of
  \<^verbatim>\<open>snd_pcm_readi\<close>, the return value of \<^verbatim>\<open>snd_pcm_recover\<close> (consulted only after a failed
  read), the contents of the buffer \<^verbatim>\<open>frame\<close> (a vector of \<^verbatim>\<open>frame_samples\<close> samples), and
  the verdict of \<^verbatim>\<open>fvad_process\<close> on it.
\<close>

record capture =
  got :: int
  recovered :: int
  frame :: "sample list"
  is_speech :: int

text \<open>
  The blocks of the loop body. \<open>mic_gate\<close> is the branch taken while speaking or cooling
  down; \<open>update_preroll\<close> appends the frame and erases the oldest samples beyond
  \<^verbatim>\<open>max_preroll_samples\<close>; \<open>speech_start\<close> and \<open>speech_end\<close> are the two trigger branches.
  In \<open>speech_end\<close> the test \<^verbatim>\<open>secs >= 0.20\<close>, with \<^verbatim>\<open>secs = (double)utterance.size() / (double)sr\<close>,
  is written on the integers: both operands of the division are integers below \<open>2\<^sup>5\<^sup>3\<close> and
  the division is correctly rounded, so the quotient is the double nearest to
  \<open>size / 16000\<close>, which is the literal \<^verbatim>\<open>0.20\<close> itself for \<open>size = 3200\<close>, is smaller for every
  smaller size, and is at least as large for every larger one. The enqueue is
  \<^verbatim>\<open>audio_q.clear()\<close> followed by \<^verbatim>\<open>audio_q.emplace_back(std::move(utterance))\<close> under \<^verbatim>\<open>q_m\<close>.
\<close>

definition mic_gate :: "pipeline \<Rightarrow> pipeline" where
  "mic_gate s =
     s\<lparr>ignore_frames := (if ignore_frames s > 0 then ignore_frames s - 1 else ignore_frames s),
       in_speech := False, voiced_run := 0, unvoiced_run := 0,
       utterance := [], preroll := [],
       audio_q := []\<rparr>"

definition update_preroll :: "sample list \<Rightarrow> pipeline \<Rightarrow> pipeline" where
  "update_preroll fr s =
     (let p = preroll s @ fr
      in if length p > max_preroll_samples
         then s\<lparr>preroll := drop (length p - max_preroll_samples) p\<rparr>
         else s\<lparr>preroll := p\<rparr>)"

definition speech_start :: "pipeline \<Rightarrow> pipeline" where
  "speech_start s =
     s\<lparr>in_speech := True, voiced_run := 0, unvoiced_run := 0,
       utterance := [] @ preroll s,
       phase := dispatch SpeechStart ''VAD start_trigger'' (phase s)\<rparr>"

definition speech_end :: "pipeline \<Rightarrow> pipeline" where
  "speech_end s =
     (let s1 = s\<lparr>in_speech := False, unvoiced_run := 0,
                 phase := dispatch SpeechEndQueued ''VAD stop_trigger'' (phase s)\<rparr>;
          s2 = (if sr \<le> 5 * length (utterance s1)
                then s1\<lparr>audio_q := [] @ [utterance s1]\<rparr>
                else s1)
      in s2\<lparr>utterance := []\<rparr>)"

definition segment :: "capture \<Rightarrow> pipeline \<Rightarrow> pipeline" where
  "segment inp s =
     (if \<not> in_speech s then
        let s1 = s\<lparr>voiced_run := (if is_speech inp \<noteq> 0 then voiced_run s + 1 else 0)\<rparr>
        in if voiced_run s1 \<ge> start_trigger then speech_start s1 else s1
      else
        let s1 = s\<lparr>utterance := utterance s @ frame inp\<rparr>;
            s2 = s1\<lparr>unvoiced_run := (if is_speech inp = 0 then unvoiced_run s1 + 1 else 0)\<rparr>
        in if unvoiced_run s2 \<ge> stop_trigger then speech_end s2 else s2)"

text \<open>
  One iteration, given the state \<open>st\<close> that \<^verbatim>\<open>sm.state()\<close> returned. \<open>arm_cooldown\<close> is the
  detection of the step out of \<open>Speaking\<close> and the update of \<^verbatim>\<open>last_was_speaking\<close>. \<open>None\<close> is \<^verbatim>\<open>die\<close>
  (the process exits); a recovered read error and a short read \<^verbatim>\<open>continue\<close> with nothing
  changed. \<open>iteration\<close> reads the state machine at the moment of the iteration;
  \<open>audio_loop\<close> runs the iterations for a finite list of captures, as far as the loop gets
  before \<^verbatim>\<open>g_running\<close> is cleared.
\<close>

definition arm_cooldown :: "State \<Rightarrow> pipeline \<Rightarrow> pipeline" where
  "arm_cooldown st s =
     (let speaking_now = (st = Speaking)
      in s\<lparr>ignore_frames :=
             (if last_was_speaking s \<and> \<not> speaking_now then cooldown_frames
              else ignore_frames s),
           last_was_speaking := speaking_now\<rparr>)"

definition iteration_at :: "State \<Rightarrow> capture \<Rightarrow> pipeline \<Rightarrow> pipeline option" where
  "iteration_at st inp s =
     (if got inp < 0 then (if recovered inp < 0 then None else Some s)
      else if got inp \<noteq> int frame_samples then Some s
      else
        let speaking_now = (st = Speaking);
            s1 = arm_cooldown st s
        in if speaking_now \<or> ignore_frames s1 > 0 then Some (mic_gate s1)
           else
             let s2 = update_preroll (frame inp) s1
             in if is_speech inp < 0 then None else Some (segment inp s2))"

definition iteration :: "capture \<Rightarrow> pipeline \<Rightarrow> pipeline option" where
  "iteration inp s = iteration_at (phase s) inp s"

fun audio_loop :: "capture list \<Rightarrow> pipeline \<Rightarrow> pipeline option" where
  "audio_loop [] s = Some s"
| "audio_loop (inp # rest) s =
     (case iteration inp s of None \<Rightarrow> None | Some s' \<Rightarrow> audio_loop rest s')"

text \<open>
  The state in which the three loops start: \<^verbatim>\<open>sm.start()\<close> has dispatched \<open>Start\<close> with the
  note \<^verbatim>\<open>start()\<close>, both deques are empty, and the audio loop's locals have their
  initial values.
\<close>

definition boot_pipeline :: pipeline where
  "boot_pipeline =
     \<lparr>phase = dispatch Start ''start()'' initial_state,
      audio_q = [], text_q = [],
      in_speech = False, voiced_run = 0, unvoiced_run = 0,
      utterance = [], preroll = [],
      ignore_frames = 0, last_was_speaking = False\<rparr>"

section \<open>The three threads together\<close>

text \<open>
  The brain thread's critical section on \<^verbatim>\<open>b_m\<close>: with a non-empty \<^verbatim>\<open>text_q\<close> it takes the
  front element and pops it.
\<close>

definition brain_dequeue :: "pipeline \<Rightarrow> string option \<times> pipeline" where
  "brain_dequeue s =
     (if text_q s \<noteq> [] then (Some (hd (text_q s)), s\<lparr>text_q := tl (text_q s)\<rparr>)
      else (None, s))"

text \<open>
  The threads interact only inside critical sections: \<^verbatim>\<open>dispatch\<close> under the state
  machine's mutex, the queue operations under \<^verbatim>\<open>q_m\<close> and \<^verbatim>\<open>b_m\<close>. \<open>worker_step\<close> lists
  the critical sections of the two worker threads, each as one atomic step: the ASR
  thread's dequeue, a \<^verbatim>\<open>dispatch\<close> by a worker, the ASR thread's append to \<^verbatim>\<open>text_q\<close>, and the
  brain thread's dequeue. It does not track where each worker is in its loop body, so it
  allows every order of these sections that the program allows (and more).

  An iteration of the audio loop touches shared data in at most three places: it reads
  the state machine first, it may dispatch one event, and it has at most one critical
  section on \<^verbatim>\<open>q_m\<close>, which comes last. Everything else it touches is its own. In
  \<open>reachable\<close> an iteration is therefore one step, taken where its last critical section
  is, with the state \<open>st\<close> it read earlier left arbitrary, since workers may have
  dispatched in between.
\<close>

inductive worker_step :: "pipeline \<Rightarrow> pipeline \<Rightarrow> bool" where
  take_audio: "worker_step s (snd (asr_dequeue s))"
| worker_dispatch: "worker_step s (s\<lparr>phase := dispatch ev nt (phase s)\<rparr>)"
| push_text: "worker_step s (s\<lparr>text_q := text_q s @ [c]\<rparr>)"
| take_text: "worker_step s (snd (brain_dequeue s))"

inductive reachable :: "pipeline \<Rightarrow> bool" where
  boot: "reachable boot_pipeline"
| audio: "reachable s \<Longrightarrow> iteration_at st inp s = Some s' \<Longrightarrow> reachable s'"
| worker: "reachable s \<Longrightarrow> worker_step s s' \<Longrightarrow> reachable s'"

text \<open>
  The history of the utterance being captured. \<open>span s P F\<close> holds when, in state \<open>s\<close>,
  the audio loop is in speech, \<open>P\<close> is the pre-roll buffer as it was copied when this
  speech started, and \<open>F\<close> lists the frames captured since, each while in speech. It is
  defined along the execution: an iteration that switches \<^verbatim>\<open>in_speech\<close> on starts a span,
  an iteration that captures a frame and stays in speech extends it, and an iteration
  without a frame, or a step of a worker, leaves it as it is.
\<close>

inductive span :: "pipeline \<Rightarrow> sample list \<Rightarrow> sample list list \<Rightarrow> bool" where
  span_start:
    "\<not> in_speech s \<Longrightarrow> iteration_at st inp s = Some s' \<Longrightarrow> in_speech s' \<Longrightarrow>
     span s' (preroll s') []"
| span_frame:
    "span s P F \<Longrightarrow> got inp = int frame_samples \<Longrightarrow> iteration_at st inp s = Some s' \<Longrightarrow>
     in_speech s' \<Longrightarrow> span s' P (F @ [frame inp])"
| span_no_frame:
    "span s P F \<Longrightarrow> got inp \<noteq> int frame_samples \<Longrightarrow> iteration_at st inp s = Some s' \<Longrightarrow>
     span s' P F"
| span_worker:
    "span s P F \<Longrightarrow> worker_step s s' \<Longrightarrow> span s' P F"

subsection \<open>Concrete captures and states\<close>

text \<open>
  Inputs and states for evaluating the loop: a full frame of zero samples that the
  detector calls voiced, and one it calls unvoiced; and the states the audio loop alone
  passes through on such frames from \<open>boot_pipeline\<close>: \<open>listening\<close> before speech
  (pre-roll of \<open>p\<close> samples, \<open>v\<close> voiced frames in a row), \<open>capturing\<close> in speech (utterance
  of \<open>k\<close> samples, \<open>r\<close> unvoiced frames in a row), and \<open>queued\<close> after the utterance of \<open>k\<close>
  samples was put on the queue.
\<close>

definition voiced :: capture where
  "voiced = \<lparr>got = int frame_samples, recovered = 0, frame = replicate frame_samples 0, is_speech = 1\<rparr>"

definition silent :: capture where
  "silent = \<lparr>got = int frame_samples, recovered = 0, frame = replicate frame_samples 0, is_speech = 0\<rparr>"

definition capturing :: "nat \<Rightarrow> nat \<Rightarrow> int \<Rightarrow> pipeline" where
  "capturing k p r =
     \<lparr>phase = CapturingSpeech, audio_q = [], text_q = [],
      in_speech = True, voiced_run = 0, unvoiced_run = r,
      utterance = replicate k 0, preroll = replicate p 0,
      ignore_frames = 0, last_was_speaking = False\<rparr>"

definition listening :: "nat \<Rightarrow> int \<Rightarrow> pipeline" where
  "listening p v =
     \<lparr>phase = AwaitSpeech, audio_q = [], text_q = [],
      in_speech = False, voiced_run = v, unvoiced_run = 0,
      utterance = [], preroll = replicate p 0,
      ignore_frames = 0, last_was_speaking = False\<rparr>"

definition queued :: "nat \<Rightarrow> nat \<Rightarrow> pipeline" where
  "queued k p =
     \<lparr>phase = Transcribing, audio_q = [replicate k 0], text_q = [],
      in_speech = False, voiced_run = 0, unvoiced_run = 0,
      utterance = [], preroll = replicate p 0,
      ignore_frames = 0, last_was_speaking = False\<rparr>"

text \<open>
  The state in which the brain thread speaks after that utterance: the ASR thread has
  emptied the queue, and \<open>TranscriptReady\<close> and \<open>ReplyReady\<close> have been dispatched.
\<close>

definition replying :: "nat \<Rightarrow> pipeline" where
  "replying p =
     \<lparr>phase = Speaking, audio_q = [], text_q = [],
      in_speech = False, voiced_run = 0, unvoiced_run = 0,
      utterance = [], preroll = replicate p 0,
      ignore_frames = 0, last_was_speaking = False\<rparr>"

text \<open>
  Further states on the way through a turn: \<open>pondering\<close>, the phase \<open>Thinking\<close> after the
  ASR thread has taken the utterance and dispatched \<open>TranscriptReady\<close> (pre-roll of \<open>p\<close>
  samples, \<open>v\<close> voiced frames in a row); and \<open>cooling\<close>, with all capture buffers reset by
  the gate, in phase \<open>ph\<close>, with the cooldown counter at \<open>n\<close> and \<^verbatim>\<open>last_was_speaking\<close> as
  given.
\<close>

definition pondering :: "nat \<Rightarrow> int \<Rightarrow> pipeline" where
  "pondering p v =
     \<lparr>phase = Thinking, audio_q = [], text_q = [],
      in_speech = False, voiced_run = v, unvoiced_run = 0,
      utterance = [], preroll = replicate p 0,
      ignore_frames = 0, last_was_speaking = False\<rparr>"

definition cooling :: "State \<Rightarrow> int \<Rightarrow> bool \<Rightarrow> pipeline" where
  "cooling ph n lws =
     \<lparr>phase = ph, audio_q = [], text_q = [],
      in_speech = False, voiced_run = 0, unvoiced_run = 0,
      utterance = [], preroll = [],
      ignore_frames = n, last_was_speaking = lws\<rparr>"

section \<open>Properties of the text utilities\<close>

text \<open>
  The second loop of \<^verbatim>\<open>normalize\<close> as a recursion on the input that emits its output in
  front: \<open>foldl_collapse_step\<close> shows it is what the fold with \<^verbatim>\<open>out\<close> and \<^verbatim>\<open>prev_space\<close>
  computes. It is used in the proofs only.
\<close>

fun squeeze :: "bool \<Rightarrow> string \<Rightarrow> string" where
  "squeeze p [] = []"
| "squeeze p (c # cs) =
     (if isspace c then (if \<not> p then CHR '' '' # squeeze True cs else squeeze True cs)
      else c # squeeze False cs)"

lemma foldl_collapse_step:
  "fst (foldl collapse_step (out, p) s) = out @ squeeze p s"
  by (induction s arbitrary: out p) (simp_all add: Let_def)

lemma trim_start_le: "a \<le> b \<Longrightarrow> trim_start s a b \<le> b"
  by (induction s a b rule: trim_start.induct) (subst trim_start.simps, simp)

lemma trim_start_drop:
  "a \<le> length s \<Longrightarrow> drop (trim_start s a (length s)) s = dropWhile isspace (drop a s)"
proof (induction s a "length s" rule: trim_start.induct)
  case (1 s a)
  show ?case
  proof (cases "a < length s")
    case True
    then have d: "drop a s = s ! a # drop (Suc a) s" by (simp add: Cons_nth_drop_Suc)
    show ?thesis
    proof (cases "isspace (s ! a)")
      case sp: True
      have "trim_start s a (length s) = trim_start s (a + 1) (length s)"
        using True sp by (subst trim_start.simps) simp
      then show ?thesis using 1 True sp d by simp
    next
      case False
      have "trim_start s a (length s) = a"
        using False by (subst trim_start.simps) simp
      then show ?thesis using False d by simp
    qed
  next
    case False
    have "trim_start s a (length s) = a"
      using False by (subst trim_start.simps) simp
    then show ?thesis using False by simp
  qed
qed

lemma trim_end_seg:
  "a \<le> b \<Longrightarrow> b \<le> length s \<Longrightarrow>
   take (trim_end s a b - a) (drop a s) = rev (dropWhile isspace (rev (take (b - a) (drop a s))))"
proof (induction s a b rule: trim_end.induct)
  case (1 s a b)
  show ?case
  proof (cases "b > a")
    case True
    have idx: "b - 1 - a < length (drop a s)" using True 1(3) by simp
    have seg: "take (b - a) (drop a s) = take (b - 1 - a) (drop a s) @ [s ! (b - 1)]"
    proof -
      have "b - a = Suc (b - 1 - a)" using True by simp
      then have "take (b - a) (drop a s) = take (b - 1 - a) (drop a s) @ [drop a s ! (b - 1 - a)]"
        using idx by (simp add: take_Suc_conv_app_nth)
      moreover have "drop a s ! (b - 1 - a) = s ! (b - 1)" using True 1(3) by simp
      ultimately show ?thesis by simp
    qed
    show ?thesis
    proof (cases "isspace (s ! (b - 1))")
      case sp: True
      have "trim_end s a b = trim_end s a (b - 1)"
        using True sp by (subst trim_end.simps) simp
      moreover have "take (trim_end s a (b - 1) - a) (drop a s) =
          rev (dropWhile isspace (rev (take (b - 1 - a) (drop a s))))"
        using 1 True sp by simp
      ultimately show ?thesis using seg sp by simp
    next
      case False
      have "trim_end s a b = b"
        using False by (subst trim_end.simps) simp
      then show ?thesis using seg False by simp
    qed
  next
    case False
    have "trim_end s a b = b"
      using False by (subst trim_end.simps) simp
    then show ?thesis using False 1(2) by simp
  qed
qed

lemma trim_ws_eq: "trim_ws s = rev (dropWhile isspace (rev (dropWhile isspace s)))"
proof -
  define a where "a = trim_start s 0 (length s)"
  have le: "a \<le> length s" unfolding a_def by (rule trim_start_le) simp
  have d: "drop a s = dropWhile isspace s"
    unfolding a_def using trim_start_drop[of 0 s] by simp
  have "trim_ws s = take (trim_end s a (length s) - a) (drop a s)"
    by (simp add: trim_ws_def Let_def substr_def a_def)
  also have "\<dots> = rev (dropWhile isspace (rev (take (length s - a) (drop a s))))"
    using le by (rule trim_end_seg) simp
  also have "\<dots> = rev (dropWhile isspace (rev (drop a s)))"
    by simp
  also have "\<dots> = rev (dropWhile isspace (rev (dropWhile isspace s)))"
    using d by simp
  finally show ?thesis .
qed

lemma isspace_space [simp]: "isspace (CHR '' '')"
  by (simp add: isspace_def)

lemma squeeze_idem: "squeeze p (squeeze p xs) = squeeze p xs"
  by (induction xs arbitrary: p) simp_all

lemma length_squeeze: "length (squeeze p xs) \<le> length xs"
  by (induction xs arbitrary: p) (auto simp: le_SucI)

lemma squeeze_prefix: "squeeze p (xs @ ys) = xs @ ys \<Longrightarrow> squeeze p xs = xs"
proof (induction xs arbitrary: p)
  case Nil
  then show ?case by simp
next
  case (Cons c xs)
  show ?case
  proof (cases "isspace c")
    case False
    then show ?thesis using Cons by simp
  next
    case sp: True
    show ?thesis
    proof (cases p)
      case True
      then have "squeeze True (xs @ ys) = c # xs @ ys" using Cons.prems sp by simp
      then have "length (squeeze True (xs @ ys)) = Suc (length (xs @ ys))" by simp
      then show ?thesis using length_squeeze[of True "xs @ ys"] by simp
    next
      case False
      then show ?thesis using Cons sp by simp
    qed
  qed
qed

lemma squeeze_True_head: "dropWhile isspace (squeeze True xs) = squeeze True xs"
proof (induction xs)
  case Nil
  then show ?case by simp
next
  case (Cons c xs)
  then show ?case by simp
qed

lemma set_squeeze:
  "c \<in> set (squeeze p xs) \<Longrightarrow> c = CHR '' '' \<or> (c \<in> set xs \<and> \<not> isspace c)"
  by (induction xs arbitrary: p) (auto split: if_splits)

lemma normalize_char_fixed:
  "\<not> isspace (normalize_char c) \<Longrightarrow> normalize_char (normalize_char c) = normalize_char c"
  by (auto simp: normalize_char_def tolower_def isalnum_def isupper_def islower_def isdigit_def
      isspace_def Let_def split: if_splits)

lemma normalize_char_space [simp]: "normalize_char (CHR '' '') = CHR '' ''"
  by (simp add: normalize_char_def tolower_def isupper_def)

lemma trim_ws_prefix: "\<exists>t. dropWhile isspace s = trim_ws s @ t"
proof -
  have "dropWhile isspace s =
        rev (dropWhile isspace (rev (dropWhile isspace s))) @
        rev (takeWhile isspace (rev (dropWhile isspace s)))"
    by (metis rev_append rev_rev_ident takeWhile_dropWhile_id)
  then have "dropWhile isspace s =
        trim_ws s @ rev (takeWhile isspace (rev (dropWhile isspace s)))"
    by (simp only: trim_ws_eq)
  then show ?thesis by (rule exI)
qed

lemma trim_ws_head: "dropWhile isspace (trim_ws s) = trim_ws s"
proof (cases "trim_ws s")
  case Nil
  then show ?thesis by simp
next
  case (Cons c cs)
  obtain t where t: "dropWhile isspace s = trim_ws s @ t" using trim_ws_prefix by blast
  then have "hd (dropWhile isspace s) = c" using Cons by simp
  moreover have "dropWhile isspace s \<noteq> []" using t Cons by simp
  ultimately have "\<not> isspace c" using hd_dropWhile[of isspace s] by auto
  then show ?thesis using Cons by simp
qed

lemma trim_ws_idem: "trim_ws (trim_ws s) = trim_ws s"
proof -
  have "trim_ws (trim_ws s) = rev (dropWhile isspace (rev (trim_ws s)))"
    by (simp add: trim_ws_eq[of "trim_ws s"] trim_ws_head)
  also have "rev (trim_ws s) = dropWhile isspace (rev (dropWhile isspace s))"
    by (simp add: trim_ws_eq)
  also have "dropWhile isspace (dropWhile isspace (rev (dropWhile isspace s))) =
             dropWhile isspace (rev (dropWhile isspace s))"
    by (rule dropWhile_idem)
  finally show ?thesis by (simp add: trim_ws_eq)
qed

lemma set_trim_ws: "set (trim_ws s) \<subseteq> set s"
proof -
  have "set (trim_ws s) \<subseteq> set (dropWhile isspace s)"
    using trim_ws_prefix[of s] by auto
  then show ?thesis using set_dropWhileD by fastforce
qed

text \<open>
  Claim C9. \<^verbatim>\<open>normalize\<close> is idempotent on every byte string: its result holds only
  lower-case letters, digits and single spaces, neither starts nor ends with a space, and
  so passes through both loops and the trim unchanged.
\<close>

theorem C9_normalize_idempotent: "normalize (normalize s) = normalize s"
proof -
  define m where "m = map normalize_char s"
  define x where "x = squeeze True m"
  define r where "r = trim_ws x"
  have r: "normalize s = r"
    by (simp add: normalize_def Let_def foldl_collapse_step m_def x_def r_def)
  have fixed: "normalize_char c = c" if "c \<in> set r" for c
  proof -
    from that have "c \<in> set x" using set_trim_ws r_def by blast
    then have "c = CHR '' '' \<or> (c \<in> set m \<and> \<not> isspace c)"
      unfolding x_def by (rule set_squeeze)
    then show ?thesis
    proof
      assume "c = CHR '' ''"
      then show ?thesis by simp
    next
      assume "c \<in> set m \<and> \<not> isspace c"
      then obtain c0 where "c = normalize_char c0" "\<not> isspace c" by (auto simp: m_def)
      then show ?thesis using normalize_char_fixed[of c0] by simp
    qed
  qed
  have map_r: "map normalize_char r = r"
    by (rule map_idI) (simp add: fixed)
  obtain t where t: "x = r @ t"
    using trim_ws_prefix[of x] squeeze_True_head[of m] by (auto simp: x_def r_def)
  have "squeeze True x = x" by (simp add: x_def squeeze_idem)
  then have sq_r: "squeeze True r = r" using t squeeze_prefix by metis
  have "normalize r = trim_ws (squeeze True (map normalize_char r))"
    by (simp add: normalize_def Let_def foldl_collapse_step)
  also have "\<dots> = trim_ws r" by (simp add: map_r sq_r)
  also have "\<dots> = r" by (simp add: r_def trim_ws_idem)
  finally show ?thesis by (simp add: r)
qed

lemma prefix_shadow:
  assumes "take (length p) t \<noteq> p"
  shows "take (length (p @ r)) t \<noteq> p @ r"
proof
  assume eq: "take (length (p @ r)) t = p @ r"
  have "take (length p) t = take (length p) (take (length (p @ r)) t)" by (simp add: min_def)
  also have "\<dots> = p" by (simp only: eq) simp
  finally show False using assms by simp
qed

lemma ed_shadows:
  assumes "take (length ''ed'') t \<noteq> ''ed''"
  shows "take (length ''ed nah'') t \<noteq> ''ed nah''" and "take (length ''ed na'') t \<noteq> ''ed na''"
  using prefix_shadow[OF assms, of "'' nah''"] prefix_shadow[OF assms, of "'' na''"] by simp_all

lemma strip_prefix_fail: "take (length p) t \<noteq> p \<Longrightarrow> strip_prefix p t = (False, t)"
  by (simp add: strip_prefix_def)

lemma dead_tail:
  "strip_chain [''ed'', ''ed nah'', ''ed na''] t = strip_chain [''ed''] t"
proof (cases "take (length ''ed'') t = ''ed''")
  case True
  then show ?thesis by (simp add: strip_prefix_def)
next
  case False
  have "strip_prefix ''ed'' t = (False, t)" 
    using False by (rule strip_prefix_fail)
  moreover have "strip_prefix ''ed nah'' t = (False, t)"
    using ed_shadows(1)[OF False] by (rule strip_prefix_fail)
  moreover have "strip_prefix ''ed na'' t = (False, t)"
    using ed_shadows(2)[OF False] by (rule strip_prefix_fail)
  ultimately show ?thesis by (simp del: strip_prefix_def)
qed

lemma strip_chain_append_cong:
  "(\<And>t. strip_chain ys t = strip_chain zs t) \<Longrightarrow>
   strip_chain (xs @ ys) t = strip_chain (xs @ zs) t"
  by (induction xs arbitrary: t) (auto split: prod.splits bool.splits)

lemma strip_chain_dead_aliases: "strip_chain invocation_prefixes t = strip_chain (take 7 invocation_prefixes) t"
proof -
  have "strip_chain ([''hey edna'', ''okay edna'', ''ok edna'', ''edna'', ''etna'', ''ewa''] @ [''ed'', ''ed nah'', ''ed na'']) t
      = strip_chain ([''hey edna'', ''okay edna'', ''ok edna'', ''edna'', ''etna'', ''ewa''] @ [''ed'']) t"
    by (rule strip_chain_append_cong) (rule dead_tail)
  then show ?thesis by (simp add: invocation_prefixes_def)
qed

text \<open>
  Claim C3 (the code departs from it). Since \<^verbatim>\<open>"ed"\<close> is tried before \<^verbatim>\<open>"ed nah"\<close> and
  \<^verbatim>\<open>"ed na"\<close>, the two longer aliases are never the prefix stripped: the chain of nine
  behaves as the chain of the first seven on every text. On \<^verbatim>\<open>ed nah lights on\<close> the code
  strips \<^verbatim>\<open>ed\<close> and leaves \<^verbatim>\<open>nah lights on\<close>, where the longest matching prefix
  \<^verbatim>\<open>ed nah\<close> would leave \<^verbatim>\<open>lights on\<close>.
\<close>

theorem C3_ed_shadows_longer_aliases:
  "strip_invocation ''ed nah lights on'' = (True, ''nah lights on'')
   \<and> spec_strip_longest ''ed nah lights on'' = Some ''lights on''
   \<and> strip_chain invocation_prefixes t = strip_chain (take 7 invocation_prefixes) t"
proof -
  have "strip_invocation ''ed nah lights on'' = (True, ''nah lights on'')
      \<and> spec_strip_longest ''ed nah lights on'' = Some ''lights on''"
    by code_simp
  then show ?thesis using strip_chain_dead_aliases[of t] by simp
qed

lemma transcribe_failed: "rc \<noteq> 0 \<Longrightarrow> transcribe_16k_mono_s16 ctx_ok audio rc segs = []"
  by (simp add: transcribe_16k_mono_s16_def)

lemma transcribe_not_blank: "transcribe_16k_mono_s16 ctx_ok audio rc segs \<noteq> BLANK_AUDIO"
  by (simp add: transcribe_16k_mono_s16_def Let_def BLANK_AUDIO_def)

lemma asr_stage_blank:
  "length (trim_ws txt) < 2 \<or> trim_ws txt = BLANK_AUDIO \<Longrightarrow>
   asr_stage txt = ((NoCommand, ''blank audio''), None)"
  by (auto simp: asr_stage_def Let_def)

lemma asr_stage_command:
  "snd (asr_stage txt) = Some cmd \<Longrightarrow>
   fst (strip_invocation (trim_ws txt)) \<and> cmd = trim_ws (snd (strip_invocation (trim_ws txt)))
   \<and> cmd \<noteq> [] \<and> fst (asr_stage txt) = (TranscriptReady, [])"
  by (auto simp: asr_stage_def Let_def split: if_splits prod.splits)

lemma asr_turn_blank:
  assumes "audio \<noteq> []"
      and "length (trim_ws (transcribe_16k_mono_s16 ctx_ok audio rc segs)) < 2"
  shows "asr_turn ctx_ok audio rc segs s = s\<lparr>phase := dispatch NoCommand ''blank audio'' (phase s)\<rparr>"
  using assms by (simp add: asr_turn_def asr_stage_blank)

lemma trim_ws_Nil: "trim_ws [] = []"
  by (simp add: trim_ws_eq)

text \<open>
  Claim C6. A failed transcription (non-zero return code) yields the empty text, and the
  transcriber never returns the sentinel \<^verbatim>\<open>[BLANK_AUDIO]\<close>. When the trimmed transcript is
  shorter than two bytes (or is the sentinel), the stage dispatches \<open>NoCommand\<close> with the
  note \<^verbatim>\<open>blank audio\<close> and appends nothing to the command queue: the turn changes the
  phase only. A command is appended only when \<^verbatim>\<open>strip_invocation\<close> matched and the trimmed
  remainder is not empty, and then the dispatched event is \<open>TranscriptReady\<close>.
\<close>

theorem C6_blank_is_NoCommand:
  "(rc \<noteq> 0 \<longrightarrow> transcribe_16k_mono_s16 ctx_ok audio rc segs = [])
   \<and> transcribe_16k_mono_s16 ctx_ok audio rc segs \<noteq> BLANK_AUDIO
   \<and> (length (trim_ws txt1) < 2 \<or> trim_ws txt1 = BLANK_AUDIO \<longrightarrow>
        asr_stage txt1 = ((NoCommand, ''blank audio''), None))
   \<and> (audio \<noteq> [] \<and> (rc \<noteq> 0 \<or> length (trim_ws (transcribe_16k_mono_s16 ctx_ok audio rc segs)) < 2) \<longrightarrow>
        asr_turn ctx_ok audio rc segs s =
          s\<lparr>phase := dispatch NoCommand ''blank audio'' (phase s)\<rparr>)
   \<and> (snd (asr_stage txt) = Some cmd \<longrightarrow>
        fst (strip_invocation (trim_ws txt))
        \<and> cmd = trim_ws (snd (strip_invocation (trim_ws txt)))
        \<and> cmd \<noteq> []
        \<and> fst (asr_stage txt) = (TranscriptReady, []))"
proof -
  have "rc \<noteq> 0 \<Longrightarrow> length (trim_ws (transcribe_16k_mono_s16 ctx_ok audio rc segs)) < 2"
    by (simp add: transcribe_failed trim_ws_Nil)
  then show ?thesis
    using transcribe_failed[of rc ctx_ok audio segs] transcribe_not_blank[of ctx_ok audio rc segs]
      asr_stage_blank[of "txt1"] asr_turn_blank[of audio ctx_ok rc segs s]
      asr_stage_command[of "txt" cmd]
    by blast
qed

theorem C6_blank_is_NoCommand_witness:
  "(1::int) \<noteq> 0
   \<and> transcribe_16k_mono_s16 True [1] 1 [Some ''hello''] = []
   \<and> length (trim_ws ''a'') < 2
   \<and> asr_stage ''a'' = ((NoCommand, ''blank audio''), None)
   \<and> asr_turn True [1] 1 [Some ''hello''] boot_pipeline =
        boot_pipeline\<lparr>phase := dispatch NoCommand ''blank audio'' (phase boot_pipeline)\<rparr>
   \<and> snd (asr_stage ''Edna, lights on.'') = Some ''lights on''
   \<and> fst (strip_invocation (trim_ws ''Edna, lights on.''))
   \<and> fst (asr_stage ''Edna, lights on.'') = (TranscriptReady, [])"
proof -
  have e1: "length (trim_ws ''a'') < 2" by code_simp
  have e2: "snd (asr_stage ''Edna, lights on.'') = Some ''lights on''" by code_simp
  have e3: "[1::sample] \<noteq> []" by simp
  show ?thesis
    using e1 e2 e3
      C6_blank_is_NoCommand[where rc = 1 and ctx_ok = True and audio = "[1]"
        and segs = "[Some ''hello'']" and ?txt1.0 = "''a''" and s = boot_pipeline
        and ?txt = "''Edna, lights on.''" and cmd = "''lights on''"]
    by simp
qed

section \<open>Properties of the sentence splitter\<close>

lemma spec_pieces_nonempty: "spec_pieces xs \<noteq> []"
  by (induction xs) (auto split: list.splits)

text \<open>Prepending text to the first of a list of pieces (used in the proofs only).\<close>

definition join_first :: "string \<Rightarrow> string list \<Rightarrow> string list" where
  "join_first cur ps = (cur @ hd ps) # tl ps"

lemma spec_pieces_Cons:
  "spec_pieces (c # rest) =
     (if end_punct c \<and> (rest = [] \<or> isspace (hd rest)) then [c] # spec_pieces rest
      else join_first [c] (spec_pieces rest))"
  using spec_pieces_nonempty[of rest] by (auto simp: join_first_def split: list.splits)

lemma split_loop_spec:
  "length inp - i = n \<Longrightarrow> i \<le> length inp \<Longrightarrow>
   snd (flush (split_loop inp i (cur, out))) =
     out @ filter (\<lambda>f. f \<noteq> []) (map trim_ws (join_first cur (spec_pieces (drop i inp))))"
proof (induction n arbitrary: i cur out)
  case 0
  then have "split_loop inp i (cur, out) = (cur, out)" by (subst split_loop.simps) simp
  then show ?case using 0 by (simp add: flush_def Let_def join_first_def)
next
  case (Suc n)
  then have lt: "i < length inp" by simp
  let ?c = "inp ! i"
  let ?rest = "drop (Suc i) inp"
  have d: "drop i inp = ?c # ?rest" using lt by (simp add: Cons_nth_drop_Suc)
  have n: "length inp - (i + 1) = n" "i + 1 \<le> length inp" using Suc.prems by simp_all
  have hdrest: "?rest \<noteq> [] \<Longrightarrow> hd ?rest = inp ! (i + 1)"
    by (simp add: hd_drop_conv_nth)
  have restnil: "?rest = [] \<longleftrightarrow> i + 1 \<ge> length inp" by simp
  let ?boundary = "end_punct ?c \<and> (?rest = [] \<or> isspace (hd ?rest))"
  show ?case
  proof (cases ?boundary)
    case True
    then have cond: "end_punct ?c" "i + 1 \<ge> length inp \<or> (\<not> i + 1 \<ge> length inp \<and> isspace (inp ! (i + 1)))"
      using hdrest restnil by auto
    have "split_loop inp i (cur, out) = split_loop inp (i + 1) (flush (cur @ [?c], out))"
      using lt cond by (subst split_loop.simps) (simp add: Let_def)
    also have "flush (cur @ [?c], out) =
        ([], out @ filter (\<lambda>f. f \<noteq> []) (map trim_ws [cur @ [?c]]))"
      by (simp add: flush_def Let_def)
    finally have st: "split_loop inp i (cur, out) =
        split_loop inp (i + 1) ([], out @ filter (\<lambda>f. f \<noteq> []) (map trim_ws [cur @ [?c]]))" .
    have jf: "join_first [] (spec_pieces (drop (i + 1) inp)) = spec_pieces ?rest"
      using spec_pieces_nonempty[of ?rest] by (simp add: join_first_def)
    have lhs: "snd (flush (split_loop inp i (cur, out))) =
        (out @ filter (\<lambda>f. f \<noteq> []) (map trim_ws [cur @ [?c]]))
          @ filter (\<lambda>f. f \<noteq> []) (map trim_ws (spec_pieces ?rest))"
      unfolding st using Suc.IH[OF n, of "[]"] unfolding jf .
    have "spec_pieces (?c # ?rest) = [?c] # spec_pieces ?rest"
      using True by (subst spec_pieces_Cons) auto
    then have sp: "spec_pieces (drop i inp) = [?c] # spec_pieces ?rest"
      by (simp only: d)
    have rhs: "join_first cur (spec_pieces (drop i inp)) = (cur @ [?c]) # spec_pieces ?rest"
      unfolding sp by (simp add: join_first_def)
    show ?thesis unfolding lhs rhs by simp
  next
    case False
    then have cond: "\<not> end_punct ?c \<or>
        \<not> (i + 1 \<ge> length inp \<or> (\<not> i + 1 \<ge> length inp \<and> isspace (inp ! (i + 1))))"
      using hdrest restnil by auto
    have "split_loop inp i (cur, out) = split_loop inp (i + 1) (cur @ [?c], out)"
      using lt cond by (subst split_loop.simps) (auto simp: Let_def)
    then have lhs: "snd (flush (split_loop inp i (cur, out))) =
        out @ filter (\<lambda>f. f \<noteq> []) (map trim_ws (join_first (cur @ [?c]) (spec_pieces (drop (i + 1) inp))))"
      using Suc.IH[OF n, of "cur @ [?c]"] by simp
    have "spec_pieces (?c # ?rest) = join_first [?c] (spec_pieces ?rest)"
      using False by (subst spec_pieces_Cons) auto
    then have sp: "spec_pieces (drop i inp) = join_first [?c] (spec_pieces ?rest)"
      by (simp only: d)
    have rhs: "join_first cur (spec_pieces (drop i inp)) =
        join_first (cur @ [?c]) (spec_pieces (drop (i + 1) inp))"
      unfolding sp by (simp add: join_first_def)
    show ?thesis unfolding lhs rhs ..
  qed
qed

lemma split_fragments_spec: "split_fragments inp = spec_fragments inp"
  using split_loop_spec[of inp 0 "length inp" "[]" "[]"] spec_pieces_nonempty[of inp]
  by (simp add: split_fragments_def spec_fragments_def join_first_def)


lemma wrap_cut_spec:
  assumes "pos < length s"
  shows "(pos < wrap_cut s pos \<and> wrap_cut s pos \<le> pos + min 180 (length s - pos)
          \<and> wrap_cut s pos < length s \<and> s ! wrap_cut s pos = CHR '' ''
          \<and> (\<forall>j. wrap_cut s pos < j \<and> j \<le> pos + min 180 (length s - pos) \<and> j < length s
                \<longrightarrow> s ! j \<noteq> CHR '' ''))
       \<or> (wrap_cut s pos = pos + min 180 (length s - pos)
          \<and> (\<forall>j. pos < j \<and> j \<le> pos + min 180 (length s - pos) \<and> j < length s
                \<longrightarrow> s ! j \<noteq> CHR '' ''))"
proof (cases "rfind_space s (pos + min 180 (length s - pos))")
  case None
  then have "wrap_cut s pos = pos + min 180 (length s - pos)"
    by (simp add: wrap_cut_def Let_def)
  then show ?thesis using rfind_space_None[OF None] by auto
next
  case (Some i)
  note sp = rfind_space_Some[OF Some]
  show ?thesis
  proof (cases "i \<le> pos")
    case True
    then have "wrap_cut s pos = pos + min 180 (length s - pos)"
      using Some by (simp add: wrap_cut_def Let_def)
    moreover have "\<forall>j. pos < j \<and> j \<le> pos + min 180 (length s - pos) \<and> j < length s
                \<longrightarrow> s ! j \<noteq> CHR '' ''"
      using sp True by auto
    ultimately show ?thesis by blast
  next
    case False
    then have "wrap_cut s pos = i" using Some by (simp add: wrap_cut_def Let_def)
    then show ?thesis using sp False by auto
  qed
qed

lemma length_trim_ws: "length (trim_ws x) \<le> length x"
proof -
  have "length (trim_ws x) \<le> length (dropWhile isspace x)"
    using length_dropWhile_le[of isspace "rev (dropWhile isspace x)"]
    by (simp add: trim_ws_eq)
  also have "\<dots> \<le> length x" by (rule length_dropWhile_le)
  finally show ?thesis .
qed

lemma wrap_loop_step:
  "pos < length s \<Longrightarrow>
   wrap_loop s pos out =
     wrap_loop s (skip_space s (wrap_cut s pos))
       (out @ [trim_ws (substr s pos (wrap_cut s pos - pos))])"
  using wrap_loop.simps[of s pos out] by (simp only: Let_def if_True)

lemma wrap_loop_done: "\<not> pos < length s \<Longrightarrow> wrap_loop s pos out = out"
  using wrap_loop.simps[of s pos out] by (simp only: if_False)

lemma wrap_loop_chunks:
  "\<forall>c\<in>set out. length c \<le> 180 \<Longrightarrow> \<forall>c\<in>set (wrap_loop s pos out). length c \<le> 180"
proof (induction s pos out rule: wrap_loop.induct)
  case (1 s pos out)
  show ?case
  proof (cases "pos < length s")
    case False
    have "wrap_loop s pos out = out" using False by (rule wrap_loop_done)
    then show ?thesis using 1(2) by (simp only:)
  next
    case True
    let ?cut = "wrap_cut s pos"
    let ?chunk = "trim_ws (substr s pos (?cut - pos))"
    have IH: "\<forall>c\<in>set (out @ [?chunk]). length c \<le> 180 \<Longrightarrow>
        \<forall>c\<in>set (wrap_loop s (skip_space s ?cut) (out @ [?chunk])). length c \<le> 180"
      by (rule 1(1)[OF True refl refl refl])
    have "length ?chunk \<le> length (substr s pos (?cut - pos))" by (rule length_trim_ws)
    also have "\<dots> \<le> ?cut - pos" unfolding substr_def length_take by (rule min.cobounded2)
    also have "\<dots> \<le> 180" using wrap_cut_bounds(2)[OF True] by linarith
    finally have ch: "length ?chunk \<le> 180" .
    have "\<forall>c\<in>set (out @ [?chunk]). length c \<le> 180" using 1(2) ch by auto
    then have "\<forall>c\<in>set (wrap_loop s (skip_space s ?cut) (out @ [?chunk])). length c \<le> 180"
      by (rule IH)
    then show ?thesis unfolding wrap_loop_step[OF True] .
  qed
qed

lemma filter_not_dropWhile: "filter (\<lambda>c. \<not> Q c) (dropWhile Q xs) = filter (\<lambda>c. \<not> Q c) xs"
  by (induction xs) simp_all

lemma filter_nonspace_trim_ws:
  "filter (\<lambda>c. \<not> isspace c) (trim_ws x) = filter (\<lambda>c. \<not> isspace c) x"
proof -
  have "filter (\<lambda>c. \<not> isspace c) (trim_ws x) =
      rev (filter (\<lambda>c. \<not> isspace c) (dropWhile isspace (rev (dropWhile isspace x))))"
    by (simp add: trim_ws_eq rev_filter)
  also have "\<dots> = rev (filter (\<lambda>c. \<not> isspace c) (rev (dropWhile isspace x)))"
    by (simp only: filter_not_dropWhile)
  also have "\<dots> = filter (\<lambda>c. \<not> isspace c) (dropWhile isspace x)"
    by (simp add: rev_filter)
  also have "\<dots> = filter (\<lambda>c. \<not> isspace c) x" by (rule filter_not_dropWhile)
  finally show ?thesis .
qed

lemma filter_nonspace_skip_space:
  "filter (\<lambda>c. \<not> isspace c) (drop (skip_space s pos) s) = filter (\<lambda>c. \<not> isspace c) (drop pos s)"
proof (induction s pos rule: skip_space.induct)
  case (1 s pos)
  show ?case
  proof (cases "pos < length s \<and> isspace (s ! pos)")
    case True
    then have a: "skip_space s pos = skip_space s (pos + 1)" by (subst skip_space.simps) simp
    have "drop pos s = s ! pos # drop (pos + 1) s" using True by (simp add: Cons_nth_drop_Suc)
    then have "filter (\<lambda>c. \<not> isspace c) (drop pos s) = filter (\<lambda>c. \<not> isspace c) (drop (pos + 1) s)"
      using True by simp
    then show ?thesis using 1 True a by simp
  next
    case False
    then have "skip_space s pos = pos" by (subst skip_space.simps) auto
    then show ?thesis by simp
  qed
qed

lemma wrap_loop_content:
  "filter (\<lambda>c. \<not> isspace c) (concat (wrap_loop s pos out)) =
   filter (\<lambda>c. \<not> isspace c) (concat out @ drop pos s)"
proof (induction s pos out rule: wrap_loop.induct)
  case (1 s pos out)
  show ?case
  proof (cases "pos < length s")
    case False
    then show ?thesis by (simp add: wrap_loop_done)
  next
    case True
    let ?cut = "wrap_cut s pos"
    let ?chunk = "trim_ws (substr s pos (?cut - pos))"
    let ?N = "filter (\<lambda>c. \<not> isspace c)"
    have le: "pos \<le> ?cut" using wrap_cut_bounds(1)[OF True] by simp
    have a: "drop pos s = take (?cut - pos) (drop pos s) @ drop (?cut - pos) (drop pos s)"
      by (rule append_take_drop_id[symmetric])
    have b: "drop (?cut - pos) (drop pos s) = drop ?cut s" using le by simp
    have split: "drop pos s = substr s pos (?cut - pos) @ drop ?cut s"
      using a unfolding b substr_def .
    have "?N (concat (wrap_loop s pos out)) =
        ?N (concat (wrap_loop s (skip_space s ?cut) (out @ [?chunk])))"
      by (simp only: wrap_loop_step[OF True])
    also have "\<dots> = ?N (concat (out @ [?chunk]) @ drop (skip_space s ?cut) s)"
      using 1[OF True refl refl refl] .
    also have "\<dots> = ?N (concat out) @ ?N ?chunk @ ?N (drop (skip_space s ?cut) s)"
      by simp
    also have "\<dots> = ?N (concat out) @ ?N (substr s pos (?cut - pos)) @ ?N (drop ?cut s)"
      by (simp only: filter_nonspace_trim_ws filter_nonspace_skip_space)
    also have "\<dots> = ?N (concat out @ (substr s pos (?cut - pos) @ drop ?cut s))"
      by simp
    also have "\<dots> = ?N (concat out @ drop pos s)"
      by (simp only: split[symmetric])
    finally show ?thesis .
  qed
qed


lemma split_sentences_eq:
  "split_sentences inp =
     (if length (split_fragments inp) = 1 \<and> 180 < length (hd (split_fragments inp))
      then filter (\<lambda>p. p \<noteq> []) (wrap_loop (hd (split_fragments inp)) 0 [])
      else split_fragments inp)"
proof (cases "split_fragments inp")
  case Nil
  then show ?thesis by (simp add: split_sentences_def Let_def)
next
  case (Cons f fs)
  then show ?thesis by (cases fs) (simp_all add: split_sentences_def Let_def)
qed

text \<open>
  Claim C8, as stated, fails in the soft wrap. A fragment of 100 \<^verbatim>\<open>a\<close>, a tab and 100
  \<^verbatim>\<open>b\<close> has whitespace before its 180th byte, yet it is cut after the 79th \<^verbatim>\<open>b\<close>, between
  two letters: only the space character counts as a place to cut. And a fragment of 181
  \<^verbatim>\<open>a\<close>, with no whitespace at all, is cut after the 180th.
\<close>

theorem C8_counterexample:
  "split_sentences (replicate 100 (CHR ''a'') @ [CHR 0x09] @ replicate 100 (CHR ''b'')) =
     [replicate 100 (CHR ''a'') @ [CHR 0x09] @ replicate 79 (CHR ''b''), replicate 21 (CHR ''b'')]
   \<and> isspace (CHR 0x09) \<and> \<not> isspace (CHR ''b'')
   \<and> split_sentences (replicate 181 (CHR ''a'')) = [replicate 180 (CHR ''a''), ''a'']
   \<and> \<not> isspace (CHR ''a'')"
  by code_simp

text \<open>
  Claim C8, amended. The fragments are the pieces cut after each \<^verbatim>\<open>.\<close>, \<^verbatim>\<open>!\<close> or \<^verbatim>\<open>?\<close> that ends
  the input or is followed by whitespace (the text after the last such mark being the
  last piece), trimmed, the empty ones dropped. When there is exactly one fragment and
  it is longer than 180 bytes, the result is the wrap of that fragment without its empty
  chunks; otherwise it is the fragments. One round of the wrap from \<open>pos\<close> cuts at
  \<open>wrap_cut s pos\<close>, appends the trimmed text between, and skips whitespace; the cut lies
  beyond \<open>pos\<close> and at most \<open>min 180 (length s - pos)\<close> bytes further, and it is either the
  last space character (\<^verbatim>\<open>' '\<close>, no other whitespace) in that window or, when the window
  holds no space, the end of the window. Every chunk has at most 180 bytes, and the
  chunks together hold exactly the non-whitespace bytes of the fragment, in order. The
  reply \<^verbatim>\<open>The sky is blue. Usually.\<close> yields the two chunks \<^verbatim>\<open>The sky is blue.\<close> and
  \<^verbatim>\<open>Usually.\<close>.
\<close>

theorem C8_split_sentences:
  "split_fragments inp = filter (\<lambda>f. f \<noteq> []) (map trim_ws (spec_pieces inp))
   \<and> split_sentences inp =
       (if length (split_fragments inp) = 1 \<and> 180 < length (hd (split_fragments inp))
        then filter (\<lambda>p. p \<noteq> []) (wrap_loop (hd (split_fragments inp)) 0 [])
        else split_fragments inp)
   \<and> (pos < length s \<longrightarrow>
        wrap_loop s pos out =
          wrap_loop s (skip_space s (wrap_cut s pos))
            (out @ [trim_ws (substr s pos (wrap_cut s pos - pos))]))
   \<and> (\<not> pos < length s \<longrightarrow> wrap_loop s pos out = out)
   \<and> (pos < length s \<longrightarrow>
        (pos < wrap_cut s pos \<and> wrap_cut s pos \<le> pos + min 180 (length s - pos)
          \<and> wrap_cut s pos < length s \<and> s ! wrap_cut s pos = CHR '' ''
          \<and> (\<forall>j. wrap_cut s pos < j \<and> j \<le> pos + min 180 (length s - pos) \<and> j < length s
                \<longrightarrow> s ! j \<noteq> CHR '' ''))
        \<or> (wrap_cut s pos = pos + min 180 (length s - pos)
          \<and> (\<forall>j. pos < j \<and> j \<le> pos + min 180 (length s - pos) \<and> j < length s
                \<longrightarrow> s ! j \<noteq> CHR '' '')))
   \<and> (\<forall>c\<in>set (wrap_loop s 0 []). length c \<le> 180)
   \<and> filter (\<lambda>c. \<not> isspace c) (concat (wrap_loop s 0 [])) = filter (\<lambda>c. \<not> isspace c) s
   \<and> split_sentences ''The sky is blue. Usually.'' = [''The sky is blue.'', ''Usually.'']"
proof -
  have a: "split_fragments inp = filter (\<lambda>f. f \<noteq> []) (map trim_ws (spec_pieces inp))"
    using split_fragments_spec[of inp] by (simp add: spec_fragments_def)
  have b: "\<forall>c\<in>set (wrap_loop s 0 []). length c \<le> 180"
    by (rule wrap_loop_chunks) simp
  have c: "filter (\<lambda>c. \<not> isspace c) (concat (wrap_loop s 0 [])) = filter (\<lambda>c. \<not> isspace c) s"
    using wrap_loop_content[of s 0 "[]"] by simp
  have d: "split_sentences ''The sky is blue. Usually.'' = [''The sky is blue.'', ''Usually.'']"
    by code_simp
  have e: "pos < length s \<longrightarrow>
        wrap_loop s pos out =
          wrap_loop s (skip_space s (wrap_cut s pos))
            (out @ [trim_ws (substr s pos (wrap_cut s pos - pos))])"
    using wrap_loop_step[of pos s out] by (rule impI)
  have f: "\<not> pos < length s \<longrightarrow> wrap_loop s pos out = out"
    using wrap_loop_done[of pos s out] by (rule impI)
  have g: "pos < length s \<longrightarrow>
        (pos < wrap_cut s pos \<and> wrap_cut s pos \<le> pos + min 180 (length s - pos)
          \<and> wrap_cut s pos < length s \<and> s ! wrap_cut s pos = CHR '' ''
          \<and> (\<forall>j. wrap_cut s pos < j \<and> j \<le> pos + min 180 (length s - pos) \<and> j < length s
                \<longrightarrow> s ! j \<noteq> CHR '' ''))
        \<or> (wrap_cut s pos = pos + min 180 (length s - pos)
          \<and> (\<forall>j. pos < j \<and> j \<le> pos + min 180 (length s - pos) \<and> j < length s
                \<longrightarrow> s ! j \<noteq> CHR '' ''))"
    using wrap_cut_spec[of pos s] by (rule impI)
  show ?thesis
    by (intro conjI) (rule a split_sentences_eq e f g b c d)+
qed

theorem C8_split_sentences_witness:
  "split_fragments ''Hi there!  Is 1.5 ok?no... yes '' = [''Hi there!'', ''Is 1.5 ok?no...'', ''yes'']
   \<and> (0::nat) < length ''ab cd''
   \<and> wrap_cut ''ab cd'' 0 = 2
   \<and> ''ab cd'' ! 2 = CHR '' ''
   \<and> wrap_loop ''ab cd'' 0 [] = [''ab'', ''cd'']
   \<and> length ''ab'' \<le> (180::nat) \<and> length ''cd'' \<le> (180::nat)
   \<and> \<not> (5::nat) < length ''ab cd''
   \<and> wrap_loop ''ab cd'' 5 [''ab'', ''cd''] = [''ab'', ''cd'']
   \<and> split_sentences (replicate 100 (CHR ''a'') @ '' '' @ replicate 100 (CHR ''b'')) =
        [replicate 100 (CHR ''a''), replicate 100 (CHR ''b'')]"
proof -
  have e1: "split_fragments ''Hi there!  Is 1.5 ok?no... yes '' =
      [''Hi there!'', ''Is 1.5 ok?no...'', ''yes'']" by code_simp
  have e2: "wrap_cut ''ab cd'' 0 = 2" by code_simp
  have e3: "wrap_loop ''ab cd'' 0 [] = [''ab'', ''cd'']" by code_simp
  have e4: "split_sentences (replicate 100 (CHR ''a'') @ '' '' @ replicate 100 (CHR ''b'')) =
        [replicate 100 (CHR ''a''), replicate 100 (CHR ''b'')]" by code_simp
  have e5: "''ab cd'' ! 2 = CHR '' ''" by simp
  note t1 = C8_split_sentences[where inp = "''Hi there!  Is 1.5 ok?no... yes ''"
      and s = "''ab cd''" and pos = 0 and out = "[]"]
  note t2 = C8_split_sentences[where inp = "''Hi there!  Is 1.5 ok?no... yes ''"
      and s = "''ab cd''" and pos = 5 and out = "[''ab'', ''cd'']"]
  have "\<forall>c\<in>set (wrap_loop ''ab cd'' 0 []). length c \<le> 180"
    by (rule t1[THEN conjunct2, THEN conjunct2, THEN conjunct2, THEN conjunct2,
          THEN conjunct2, THEN conjunct1])
  then have f: "length ''ab'' \<le> (180::nat) \<and> length ''cd'' \<le> (180::nat)"
    unfolding e3 by simp
  have n5: "\<not> (5::nat) < length ''ab cd''" by simp
  have g: "wrap_loop ''ab cd'' 5 [''ab'', ''cd''] = [''ab'', ''cd'']"
    using t2[THEN conjunct2, THEN conjunct2, THEN conjunct2, THEN conjunct1] n5 by (rule mp)
  have p0: "(0::nat) < length ''ab cd''" by simp
  show ?thesis
    using e1 p0 e2 e5 e3 f n5 g e4 by (intro conjI) (erule conjunct1 conjunct2 | assumption)+
qed

section \<open>Properties of the speech stage\<close>

lemma tts_loop_all_ok:
  "(\<And>j. j < length ps \<Longrightarrow> trim_ws (ps ! j) \<noteq> [] \<Longrightarrow> speak (i + j) (trim_ws (ps ! j))) \<Longrightarrow>
   tts_loop speak i ps = (filter (\<lambda>c. c \<noteq> []) (map trim_ws ps), True, [])"
proof (induction ps arbitrary: i)
  case Nil
  then show ?case by simp
next
  case (Cons p ps)
  have rest: "tts_loop speak (i + 1) ps = (filter (\<lambda>c. c \<noteq> []) (map trim_ws ps), True, [])"
  proof (rule Cons.IH)
    fix j assume "j < length ps" "trim_ws (ps ! j) \<noteq> []"
    then show "speak (i + 1 + j) (trim_ws (ps ! j))"
      using Cons.prems[of "Suc j"] by simp
  qed
  show ?case
  proof (cases "trim_ws p = []")
    case True
    then show ?thesis using rest by (simp add: Let_def)
  next
    case False
    then have "speak i (trim_ws p)" using Cons.prems[of 0] by simp
    then show ?thesis using rest False by (simp add: Let_def)
  qed
qed

lemma tts_loop_first_failure:
  "(\<And>j. j < length pre \<Longrightarrow> trim_ws (pre ! j) \<noteq> [] \<Longrightarrow> speak (i + j) (trim_ws (pre ! j))) \<Longrightarrow>
   trim_ws p \<noteq> [] \<Longrightarrow> \<not> speak (i + length pre) (trim_ws p) \<Longrightarrow>
   tts_loop speak i (pre @ p # post) =
     (filter (\<lambda>c. c \<noteq> []) (map trim_ws pre) @ [trim_ws p], False, [SpeakFailed])"
proof (induction pre arbitrary: i)
  case Nil
  then show ?case by (simp add: Let_def)
next
  case (Cons q pre)
  have rest: "tts_loop speak (i + 1) (pre @ p # post) =
     (filter (\<lambda>c. c \<noteq> []) (map trim_ws pre) @ [trim_ws p], False, [SpeakFailed])"
  proof (rule Cons.IH)
    fix j assume "j < length pre" "trim_ws (pre ! j) \<noteq> []"
    then show "speak (i + 1 + j) (trim_ws (pre ! j))"
      using Cons.prems(1)[of "Suc j"] by simp
  next
    show "trim_ws p \<noteq> []" by (rule Cons.prems(2))
  next
    show "\<not> speak (i + 1 + length pre) (trim_ws p)" using Cons.prems(3) by simp
  qed
  show ?case
  proof (cases "trim_ws q = []")
    case True
    then show ?thesis using rest by (simp add: Let_def)
  next
    case False
    then have "speak i (trim_ws q)" using Cons.prems(1)[of 0] by simp
    then show ?thesis using rest False by (simp add: Let_def)
  qed
qed

lemma speech_stage_dispatched: "dispatched (speech_stage enabled speak reply) = [(TtsDone, [])]"
  by (simp add: speech_stage_def Let_def split: prod.splits)

text \<open>
  Claim C7, as stated, fails: the reply \<^verbatim>\<open>A. B.\<close> has the two chunks \<^verbatim>\<open>A.\<close> and \<^verbatim>\<open>B.\<close>; when
  \<^verbatim>\<open>speak\<close> fails on the first and would succeed on the second, only \<^verbatim>\<open>A.\<close> is handed to
  \<^verbatim>\<open>speak\<close>: the loop does not continue to the next chunk.
\<close>

theorem C7_counterexample:
  "split_sentences ''A. B.'' = [''A.'', ''B.'']
   \<and> (\<lambda>i c. i \<noteq> (0::nat)) 1 ''B.''
   \<and> attempted (speech_stage True (\<lambda>i c. i \<noteq> 0) ''A. B.'') = [''A.'']
   \<and> logged (speech_stage True (\<lambda>i c. i \<noteq> 0) ''A. B.'') = [SpeakFailed]"
  by code_simp

text \<open>
  Claim C7, amended. Whatever \<^verbatim>\<open>speak\<close> answers, and whether the synthesizer is enabled or
  not, the stage dispatches \<open>TtsDone\<close> exactly once. When \<^verbatim>\<open>speak\<close> first fails on the
  part \<open>p\<close>, the parts before it having been spoken (or being empty), the chunks handed
  to \<^verbatim>\<open>speak\<close> are the non-empty chunks up to and including \<open>p\<close>: the failure is logged,
  \<^verbatim>\<open>tts_ok\<close> is false, and no part after \<open>p\<close> is attempted. When no \<^verbatim>\<open>speak\<close> fails, every
  non-empty chunk is spoken and the success line is logged.
\<close>

theorem C7_failure_ends_loop_TtsDone_once:
  "dispatched (speech_stage enabled speak reply) = [(TtsDone, [])]
   \<and> (split_sentences reply = pre @ p # post
        \<and> (\<forall>j<length pre. trim_ws (pre ! j) \<noteq> [] \<longrightarrow> speak j (trim_ws (pre ! j)))
        \<and> trim_ws p \<noteq> [] \<and> \<not> speak (length pre) (trim_ws p) \<longrightarrow>
      speech_stage True speak reply =
        \<lparr>attempted = filter (\<lambda>c. c \<noteq> []) (map trim_ws pre) @ [trim_ws p],
         tts_ok = False, logged = [SpeakFailed], dispatched = [(TtsDone, [])]\<rparr>)
   \<and> ((\<forall>j<length (split_sentences reply).
          trim_ws (split_sentences reply ! j) \<noteq> [] \<longrightarrow>
          speak j (trim_ws (split_sentences reply ! j))) \<longrightarrow>
      speech_stage True speak reply =
        \<lparr>attempted = filter (\<lambda>c. c \<noteq> []) (map trim_ws (split_sentences reply)),
         tts_ok = True, logged = [SpeakOK], dispatched = [(TtsDone, [])]\<rparr>)"
proof (intro conjI impI)
  show "dispatched (speech_stage enabled speak reply) = [(TtsDone, [])]"
    by (rule speech_stage_dispatched)
next
  assume a: "split_sentences reply = pre @ p # post
        \<and> (\<forall>j<length pre. trim_ws (pre ! j) \<noteq> [] \<longrightarrow> speak j (trim_ws (pre ! j)))
        \<and> trim_ws p \<noteq> [] \<and> \<not> speak (length pre) (trim_ws p)"
  then have "tts_loop speak 0 (pre @ p # post) =
     (filter (\<lambda>c. c \<noteq> []) (map trim_ws pre) @ [trim_ws p], False, [SpeakFailed])"
    using tts_loop_first_failure[of pre speak 0 p post] by simp
  then show "speech_stage True speak reply =
        \<lparr>attempted = filter (\<lambda>c. c \<noteq> []) (map trim_ws pre) @ [trim_ws p],
         tts_ok = False, logged = [SpeakFailed], dispatched = [(TtsDone, [])]\<rparr>"
    using a by (simp add: speech_stage_def Let_def)
next
  assume "\<forall>j<length (split_sentences reply).
          trim_ws (split_sentences reply ! j) \<noteq> [] \<longrightarrow>
          speak j (trim_ws (split_sentences reply ! j))"
  then have "tts_loop speak 0 (split_sentences reply) =
     (filter (\<lambda>c. c \<noteq> []) (map trim_ws (split_sentences reply)), True, [])"
    using tts_loop_all_ok[of "split_sentences reply" speak 0] by simp
  then show "speech_stage True speak reply =
        \<lparr>attempted = filter (\<lambda>c. c \<noteq> []) (map trim_ws (split_sentences reply)),
         tts_ok = True, logged = [SpeakOK], dispatched = [(TtsDone, [])]\<rparr>"
    by (simp add: speech_stage_def Let_def)
qed

theorem C7_failure_ends_loop_TtsDone_once_witness:
  "split_sentences ''A. B. C.'' = [''A.''] @ ''B.'' # [''C.'']
   \<and> trim_ws ''A.'' = ''A.'' \<and> trim_ws ''B.'' = ''B.''
   \<and> speech_stage True (\<lambda>i c. i \<noteq> 1) ''A. B. C.'' =
        \<lparr>attempted = [''A.'', ''B.''], tts_ok = False, logged = [SpeakFailed],
         dispatched = [(TtsDone, [])]\<rparr>
   \<and> split_sentences ''Hi.'' = [''Hi.'']
   \<and> speech_stage True (\<lambda>i c. True) ''Hi.'' =
        \<lparr>attempted = [''Hi.''], tts_ok = True, logged = [SpeakOK],
         dispatched = [(TtsDone, [])]\<rparr>"
proof -
  have e1: "split_sentences ''A. B. C.'' = [''A.''] @ ''B.'' # [''C.'']" by code_simp
  have e2: "trim_ws ''A.'' = ''A.''" by code_simp
  have e3: "trim_ws ''B.'' = ''B.''" by code_simp
  have e4: "split_sentences ''Hi.'' = [''Hi.'']" by code_simp
  have e5: "trim_ws ''Hi.'' = ''Hi.''" by code_simp
  have f: "speech_stage True (\<lambda>i c. i \<noteq> 1) ''A. B. C.'' =
        \<lparr>attempted = [''A.'', ''B.''], tts_ok = False, logged = [SpeakFailed],
         dispatched = [(TtsDone, [])]\<rparr>"
    using C7_failure_ends_loop_TtsDone_once[where reply = "''A. B. C.''" and pre = "[''A.'']"
        and p = "''B.''" and post = "[''C.'']" and speak = "\<lambda>i c. i \<noteq> 1"] e1 e2 e3
    by simp
  have g: "speech_stage True (\<lambda>i c. True) ''Hi.'' =
        \<lparr>attempted = [''Hi.''], tts_ok = True, logged = [SpeakOK],
         dispatched = [(TtsDone, [])]\<rparr>"
    using C7_failure_ends_loop_TtsDone_once[where reply = "''Hi.''" and speak = "\<lambda>i c. True"] e4 e5
    by simp
  show ?thesis using e1 e2 e3 e4 f g by simp
qed

section \<open>Properties of the audio loop and of the threads together\<close>

lemmas loop_consts = sr_def frame_ms_def frame_samples_def cooldown_frames_def
  max_preroll_samples_def start_trigger_def stop_trigger_def

lemma update_preroll_fields [simp]:
  "phase (update_preroll fr s) = phase s"
  "audio_q (update_preroll fr s) = audio_q s"
  "text_q (update_preroll fr s) = text_q s"
  "in_speech (update_preroll fr s) = in_speech s"
  "voiced_run (update_preroll fr s) = voiced_run s"
  "unvoiced_run (update_preroll fr s) = unvoiced_run s"
  "utterance (update_preroll fr s) = utterance s"
  "ignore_frames (update_preroll fr s) = ignore_frames s"
  "last_was_speaking (update_preroll fr s) = last_was_speaking s"
  by (simp_all add: update_preroll_def Let_def)

lemma update_preroll_length: "length (preroll (update_preroll fr s)) \<le> max_preroll_samples"
  by (simp add: update_preroll_def Let_def del: drop_append)

lemma segment_fields [simp]:
  "text_q (segment inp s) = text_q s"
  "preroll (segment inp s) = preroll s"
  "ignore_frames (segment inp s) = ignore_frames s"
  "last_was_speaking (segment inp s) = last_was_speaking s"
  by (simp_all add: segment_def speech_start_def speech_end_def Let_def)

lemma segment_audio_q:
  "audio_q (segment inp s) = audio_q s \<or>
   (in_speech s \<and> audio_q (segment inp s) = [utterance s @ frame inp]
    \<and> sr \<le> 5 * length (utterance s @ frame inp) \<and> \<not> in_speech (segment inp s))"
  by (simp add: segment_def speech_start_def speech_end_def Let_def)

lemma segment_start:
  "\<not> in_speech s \<Longrightarrow> in_speech (segment inp s) \<Longrightarrow> utterance (segment inp s) = preroll s"
  by (simp add: segment_def speech_start_def Let_def split: if_splits)

lemma segment_continue:
  "in_speech s \<Longrightarrow> in_speech (segment inp s) \<Longrightarrow> utterance (segment inp s) = utterance s @ frame inp"
  by (simp add: segment_def speech_end_def Let_def split: if_splits)

lemma iteration_at_result:
  assumes "iteration_at st inp s = Some s'"
  shows "(got inp \<noteq> int frame_samples \<and> s' = s)
       \<or> (got inp = int frame_samples \<and> (st = Speaking \<or> 0 < ignore_frames (arm_cooldown st s))
            \<and> s' = mic_gate (arm_cooldown st s))
       \<or> (got inp = int frame_samples \<and> st \<noteq> Speaking \<and> ignore_frames (arm_cooldown st s) \<le> 0
            \<and> 0 \<le> is_speech inp
            \<and> s' = segment inp (update_preroll (frame inp) (arm_cooldown st s)))"
  using assms unfolding iteration_at_def Let_def
  by (auto split: if_splits)

lemma arm_cooldown_fields [simp]:
  "phase (arm_cooldown st s) = phase s"
  "audio_q (arm_cooldown st s) = audio_q s"
  "text_q (arm_cooldown st s) = text_q s"
  "in_speech (arm_cooldown st s) = in_speech s"
  "voiced_run (arm_cooldown st s) = voiced_run s"
  "unvoiced_run (arm_cooldown st s) = unvoiced_run s"
  "utterance (arm_cooldown st s) = utterance s"
  "preroll (arm_cooldown st s) = preroll s"
  by (simp_all add: arm_cooldown_def Let_def)

lemma mic_gate_fields [simp]:
  "phase (mic_gate s) = phase s"
  "audio_q (mic_gate s) = []"
  "text_q (mic_gate s) = text_q s"
  "in_speech (mic_gate s) = False"
  "voiced_run (mic_gate s) = 0"
  "unvoiced_run (mic_gate s) = 0"
  "utterance (mic_gate s) = []"
  "preroll (mic_gate s) = []"
  "last_was_speaking (mic_gate s) = last_was_speaking s"
  by (simp_all add: mic_gate_def)


lemma worker_step_locals:
  assumes "worker_step s s'"
  shows "in_speech s' = in_speech s" "voiced_run s' = voiced_run s"
    "unvoiced_run s' = unvoiced_run s" "utterance s' = utterance s" "preroll s' = preroll s"
    "ignore_frames s' = ignore_frames s" "last_was_speaking s' = last_was_speaking s"
    "audio_q s' = audio_q s \<or> audio_q s' = []"
  using assms
  by (induction rule: worker_step.induct; simp add: asr_dequeue_def brain_dequeue_def)+

lemma iteration_at_ignore_frames:
  assumes "iteration_at st inp s = Some s'" "0 \<le> ignore_frames s"
  shows "0 \<le> ignore_frames s'"
  using iteration_at_result[OF assms(1)] assms(2)
  by (auto simp: mic_gate_def arm_cooldown_def Let_def cooldown_frames_def frame_ms_def)

lemma reachable_ignore_frames: "reachable s \<Longrightarrow> 0 \<le> ignore_frames s"
proof (induction rule: reachable.induct)
  case boot
  then show ?case by (simp add: boot_pipeline_def)
next
  case (audio s st inp s')
  then show ?case using iteration_at_ignore_frames by blast
next
  case (worker s s')
  then show ?case using worker_step_locals(6) by simp
qed

lemma iteration_at_audio_q:
  assumes "iteration_at st inp s = Some s'"
  shows "audio_q s' = audio_q s \<or> audio_q s' = []
       \<or> (got inp = int frame_samples \<and> in_speech s \<and> \<not> in_speech s'
           \<and> audio_q s' = [utterance s @ frame inp]
           \<and> sr \<le> 5 * length (utterance s @ frame inp))"
  using iteration_at_result[OF assms]
    segment_audio_q[of inp "update_preroll (frame inp) (arm_cooldown st s)"]
  by auto


lemma reachable_audio_q_min: "reachable s \<Longrightarrow> u \<in> set (audio_q s) \<Longrightarrow> sr \<le> 5 * length u"
proof (induction rule: reachable.induct)
  case boot
  then show ?case by (simp add: boot_pipeline_def)
next
  case (audio s st inp s')
  then show ?case using iteration_at_audio_q[of st inp s s'] by auto
next
  case (worker s s')
  then show ?case using worker_step_locals(8)[of s s'] by auto
qed

lemma iteration_at_preroll:
  assumes "iteration_at st inp s = Some s'" "length (preroll s) \<le> max_preroll_samples"
  shows "length (preroll s') \<le> max_preroll_samples"
  using iteration_at_result[OF assms(1)] assms(2)
    update_preroll_length[of "frame inp" "arm_cooldown st s"]
  by auto

lemma reachable_preroll: "reachable s \<Longrightarrow> length (preroll s) \<le> max_preroll_samples"
proof (induction rule: reachable.induct)
  case boot
  then show ?case by (simp add: boot_pipeline_def)
next
  case (audio s st inp s')
  then show ?case using iteration_at_preroll by blast
next
  case (worker s s')
  then show ?case using worker_step_locals(5) by simp
qed


lemma span_sound:
  "span s P F \<Longrightarrow>
   in_speech s \<and> utterance s = P @ concat F \<and> length P \<le> max_preroll_samples"
proof (induction rule: span.induct)
  case (span_start s st inp s')
  let ?s2 = "update_preroll (frame inp) (arm_cooldown st s)"
  from iteration_at_result[OF span_start(2)] span_start(1,3)
  have s': "s' = segment inp ?s2" by auto
  have "\<not> in_speech ?s2" using span_start(1) by simp
  then have "utterance s' = preroll ?s2"
    using span_start(3) segment_start[of ?s2 inp] s' by simp
  moreover have "preroll s' = preroll ?s2" using s' by simp
  moreover have "length (preroll ?s2) \<le> max_preroll_samples" by (rule update_preroll_length)
  ultimately show ?case using span_start(3) by simp
next
  case (span_frame s P F inp st s')
  let ?s2 = "update_preroll (frame inp) (arm_cooldown st s)"
  from iteration_at_result[OF span_frame(3)] span_frame(2,4)
  have s': "s' = segment inp ?s2" by auto
  have "in_speech ?s2" using span_frame.IH by simp
  then have "utterance s' = utterance ?s2 @ frame inp"
    using span_frame(4) segment_continue[of ?s2 inp] s' by simp
  then show ?case using span_frame.IH span_frame(4) by simp
next
  case (span_no_frame s P F inp st s')
  from iteration_at_result[OF span_no_frame(3)] span_no_frame(2)
  have "s' = s" by auto
  then show ?case using span_no_frame.IH by simp
next
  case (span_worker s P F s')
  then show ?case using worker_step_locals[OF span_worker(2)] by simp
qed

lemma span_complete: "reachable s \<Longrightarrow> in_speech s \<Longrightarrow> \<exists>P F. span s P F"
proof (induction rule: reachable.induct)
  case boot
  then show ?case by (simp add: boot_pipeline_def)
next
  case (audio s st inp s')
  show ?case
  proof (cases "in_speech s")
    case False
    then have "span s' (preroll s') []"
      using audio.hyps(2) audio.prems by (rule span_start)
    then show ?thesis by blast
  next
    case True
    then obtain P F where sp: "span s P F" using audio.IH by blast
    show ?thesis
    proof (cases "got inp = int frame_samples")
      case True
      from sp True audio.hyps(2) audio.prems have "span s' P (F @ [frame inp])"
        by (rule span_frame)
      then show ?thesis by blast
    next
      case False
      from sp False audio.hyps(2) have "span s' P F" by (rule span_no_frame)
      then show ?thesis by blast
    qed
  qed
next
  case (worker s s')
  then have "in_speech s" using worker_step_locals(1)[of s s'] by simp
  then obtain P F where "span s P F" using worker.IH by blast
  then have "span s' P F" using worker.hyps(2) by (rule span_worker)
  then show ?case by blast
qed

lemma span_enqueue:
  assumes "span s P F" "iteration_at st inp s = Some s'" "u \<in> set (audio_q s')"
  shows "u \<in> set (audio_q s)
       \<or> (got inp = int frame_samples \<and> \<not> in_speech s'
           \<and> audio_q s' = [u] \<and> u = P @ concat (F @ [frame inp]) \<and> sr \<le> 5 * length u)"
  using iteration_at_audio_q[OF assms(2)] span_sound[OF assms(1)] assms(3)
  by auto


lemmas step_defs = iteration_def iteration_at_def arm_cooldown_def update_preroll_def
  segment_def speech_start_def speech_end_def mic_gate_def loop_consts
  dispatch_def dispatch_obs_def Let_def voiced_def silent_def

lemma boot_listening: "boot_pipeline = listening 0 0"
  by (simp add: boot_pipeline_def listening_def dispatch_def dispatch_obs_def initial_state_def)

lemma step_listening_voiced:
  "0 \<le> v \<Longrightarrow> v < 2 \<Longrightarrow> p + 320 \<le> 4800 \<Longrightarrow>
   iteration voiced (listening p v) = Some (listening (p + 320) (v + 1))"
  by (simp add: step_defs listening_def replicate_add[symmetric])

lemma step_listening_start:
  "p + 320 \<le> 4800 \<Longrightarrow>
   iteration voiced (listening p 2) = Some (capturing (p + 320) (p + 320) 0)"
  by (simp add: step_defs listening_def capturing_def replicate_add[symmetric])

lemma step_capturing_voiced:
  "iteration voiced (capturing k p r) = Some (capturing (k + 320) (min 4800 (p + 320)) 0)"
  by (simp add: step_defs capturing_def replicate_add[symmetric] min_def)

lemma step_capturing_silent:
  "r + 1 < 20 \<Longrightarrow>
   iteration silent (capturing k p r) = Some (capturing (k + 320) (min 4800 (p + 320)) (r + 1))"
  by (simp add: step_defs capturing_def replicate_add[symmetric] min_def)

lemma step_capturing_end:
  "2880 \<le> k \<Longrightarrow>
   iteration silent (capturing k p 19) = Some (queued (k + 320) (min 4800 (p + 320)))"
  by (simp add: step_defs capturing_def queued_def replicate_add[symmetric] min_def)

lemma step_queued_silent:
  "iteration silent (queued k p) =
     Some ((queued k (min 4800 (p + 320))))"
  by (simp add: step_defs queued_def replicate_add[symmetric] min_def)


lemma audio_loop_append:
  "audio_loop (xs @ ys) s = (case audio_loop xs s of None \<Rightarrow> None | Some s' \<Rightarrow> audio_loop ys s')"
  by (induction xs arbitrary: s) (auto split: option.splits)

lemma run_capturing_voiced:
  "p \<le> 4800 \<Longrightarrow>
   audio_loop (replicate n voiced) (capturing k p 0) =
     Some (capturing (k + 320 * n) (min 4800 (p + 320 * n)) 0)"
proof (induction n arbitrary: k p)
  case 0
  then show ?case by (simp add: capturing_def)
next
  case (Suc n)
  have "min 4800 (min 4800 (p + 320) + 320 * n) = min 4800 (p + 320 * Suc n)" by simp
  then show ?case using Suc.IH[of "min 4800 (p + 320)" "k + 320"]
    by (simp add: step_capturing_voiced add.assoc)
qed

lemma run_capturing_silent:
  "p \<le> 4800 \<Longrightarrow> r + int n < 20 \<Longrightarrow>
   audio_loop (replicate n silent) (capturing k p r) =
     Some (capturing (k + 320 * n) (min 4800 (p + 320 * n)) (r + int n))"
proof (induction n arbitrary: k p r)
  case 0
  then show ?case by (simp add: capturing_def)
next
  case (Suc n)
  have m: "min 4800 (min 4800 (p + 320) + 320 * n) = min 4800 (p + 320 * Suc n)" by simp
  have r: "r + 1 < 20" "r + 1 + int n < 20" using Suc.prems by simp_all
  show ?case using Suc.IH[of "min 4800 (p + 320)" "r + 1" "k + 320"] r m
    by (simp add: step_capturing_silent add.assoc)
qed

lemma run_boot_start:
  "audio_loop (replicate 3 voiced) boot_pipeline = Some (capturing 960 960 0)"
proof -
  have "replicate 3 voiced = [voiced, voiced, voiced]" by (simp add: numeral_3_eq_3)
  then show ?thesis
    using step_listening_voiced[of 0 0] step_listening_voiced[of 1 320]
      step_listening_start[of 640]
    by (simp add: boot_listening)
qed

lemma run_utterance:
  "audio_loop (replicate 3 voiced @ replicate n voiced @ replicate 19 silent @ [silent])
     boot_pipeline = Some (queued (7360 + 320 * n) 4800)"
proof -
  have a: "audio_loop (replicate n voiced) (capturing 960 960 0) =
      Some (capturing (960 + 320 * n) (min 4800 (960 + 320 * n)) 0)"
    by (rule run_capturing_voiced) simp
  have b: "audio_loop (replicate 19 silent) (capturing (960 + 320 * n) (min 4800 (960 + 320 * n)) 0) =
      Some (capturing (960 + 320 * n + 320 * 19) (min 4800 (min 4800 (960 + 320 * n) + 320 * 19)) (0 + int 19))"
    by (rule run_capturing_silent) simp_all
  have c: "iteration silent (capturing (960 + 320 * n + 320 * 19) (min 4800 (min 4800 (960 + 320 * n) + 320 * 19)) 19)
     = Some (queued (960 + 320 * n + 320 * 19 + 320) (min 4800 (min 4800 (min 4800 (960 + 320 * n) + 320 * 19) + 320)))"
    by (rule step_capturing_end) simp
  have d: "min 4800 (min 4800 (min 4800 (960 + 320 * n) + 320 * 19) + 320) = 4800" by simp
  have e: "960 + 320 * n + 320 * 19 + 320 = 7360 + 320 * n" by simp
  show ?thesis
    using run_boot_start a b c by (simp add: audio_loop_append d e)
qed

lemma audio_loop_reachable:
  "reachable s \<Longrightarrow> audio_loop caps s = Some s' \<Longrightarrow> reachable s'"
proof (induction caps arbitrary: s)
  case Nil
  then show ?case by simp
next
  case (Cons c caps)
  then obtain s1 where s1: "iteration c s = Some s1" "audio_loop caps s1 = Some s'"
    by (auto split: option.splits)
  then have "reachable s1" using Cons.prems(1) reachable.audio[of s "phase s" c s1]
    by (simp add: iteration_def)
  then show ?case using Cons.IH s1(2) by blast
qed

lemma reachable_queued: "reachable (queued (7360 + 320 * n) 4800)"
  using audio_loop_reachable[OF reachable.boot run_utterance] .

lemma run_capturing_19:
  "audio_loop (replicate 3 voiced @ replicate 19 silent) boot_pipeline =
     Some (capturing 7040 4800 19)"
proof -
  have "audio_loop (replicate 19 silent) (capturing 960 960 0) =
      Some (capturing (960 + 320 * 19) (min 4800 (960 + 320 * 19)) (0 + int 19))"
    by (rule run_capturing_silent) simp_all
  then show ?thesis using run_boot_start by (simp add: audio_loop_append)
qed

lemma reachable_capturing_19: "reachable (capturing 7040 4800 19)"
  using audio_loop_reachable[OF reachable.boot run_capturing_19] .

lemma span_capturing_start: "span (capturing 960 960 0) (replicate 960 0) []"
proof -
  have a: "\<not> in_speech (listening 640 2)" by (simp add: listening_def)
  have b: "iteration_at AwaitSpeech voiced (listening 640 2) = Some (capturing 960 960 0)"
    using step_listening_start[of 640] by (simp add: iteration_def listening_def)
  have c: "in_speech (capturing 960 960 0)" by (simp add: capturing_def)
  have "span (capturing 960 960 0) (preroll (capturing 960 960 0)) []"
    using a b c by (rule span_start)
  then show ?thesis by (simp add: capturing_def)
qed

lemma span_capturing_silent:
  "p \<le> 4800 \<Longrightarrow> r + int n < 20 \<Longrightarrow> span (capturing k p r) P F \<Longrightarrow>
   span (capturing (k + 320 * n) (min 4800 (p + 320 * n)) (r + int n)) P
     (F @ replicate n (frame silent))"
proof (induction n arbitrary: k p r F)
  case 0
  then show ?case by simp
next
  case (Suc n)
  have r: "r + 1 < 20" "r + 1 + int n < 20" using Suc.prems by simp_all
  have it: "iteration_at CapturingSpeech silent (capturing k p r) =
      Some (capturing (k + 320) (min 4800 (p + 320)) (r + 1))"
    using step_capturing_silent[OF r(1), of k p] by (simp add: iteration_def capturing_def)
  have g: "got silent = int frame_samples" by (simp add: silent_def)
  have i: "in_speech (capturing (k + 320) (min 4800 (p + 320)) (r + 1))"
    by (simp add: capturing_def)
  have "span (capturing (k + 320) (min 4800 (p + 320)) (r + 1)) P (F @ [frame silent])"
    using Suc.prems(3) g it i by (rule span_frame)
  then have "span (capturing (k + 320 + 320 * n) (min 4800 (min 4800 (p + 320) + 320 * n))
      (r + 1 + int n)) P ((F @ [frame silent]) @ replicate n (frame silent))"
    using Suc.IH[of "min 4800 (p + 320)" "r + 1" "k + 320" "F @ [frame silent]"] r by simp
  moreover have "min 4800 (min 4800 (p + 320) + 320 * n) = min 4800 (p + 320 * Suc n)" by simp
  moreover have "(F @ [frame silent]) @ replicate n (frame silent) = F @ replicate (Suc n) (frame silent)"
    by (simp add: replicate_append_same)
  ultimately show ?case by (simp add: add.assoc)
qed

lemma span_capturing_19:
  "span (capturing 7040 4800 19) (replicate 960 0) (replicate 19 (frame silent))"
proof -
  have "span (capturing (960 + 320 * 19) (min 4800 (960 + 320 * 19)) (0 + int 19))
      (replicate 960 0) ([] @ replicate 19 (frame silent))"
    by (rule span_capturing_silent[OF _ _ span_capturing_start]) simp_all
  then show ?thesis by simp
qed


lemma reachable_replying: "reachable (replying 4800)"
proof -
  have r0: "reachable (queued 7360 4800)" using reachable_queued[of 0] by simp
  have "worker_step (queued 7360 4800) (snd (asr_dequeue (queued 7360 4800)))"
    by (rule worker_step.take_audio)
  then have r1: "reachable ((queued 7360 4800)\<lparr>audio_q := []\<rparr>)"
    using reachable.worker[OF r0] by (simp add: asr_dequeue_def queued_def)
  let ?s1 = "(queued 7360 4800)\<lparr>audio_q := []\<rparr>"
  have "worker_step ?s1 (?s1\<lparr>phase := dispatch TranscriptReady [] (phase ?s1)\<rparr>)"
    by (rule worker_step.worker_dispatch)
  then have r2: "reachable (?s1\<lparr>phase := Thinking\<rparr>)"
    using reachable.worker[OF r1] by (simp add: queued_def dispatch_def dispatch_obs_def)
  let ?s2 = "?s1\<lparr>phase := Thinking\<rparr>"
  have "worker_step ?s2 (?s2\<lparr>phase := dispatch ReplyReady [] (phase ?s2)\<rparr>)"
    by (rule worker_step.worker_dispatch)
  then have "reachable (?s2\<lparr>phase := Speaking\<rparr>)"
    using reachable.worker[OF r2] by (simp add: queued_def dispatch_def dispatch_obs_def)
  then show ?thesis by (simp add: queued_def replying_def)
qed

lemma iteration_at_text_q: "iteration_at st inp s = Some s' \<Longrightarrow> text_q s' = text_q s"
  using iteration_at_result[of st inp s s'] by auto

lemma reachable_pondering: "reachable (pondering 4800 0)"
proof -
  have r0: "reachable (queued 7360 4800)" using reachable_queued[of 0] by simp
  have "worker_step (queued 7360 4800) (snd (asr_dequeue (queued 7360 4800)))"
    by (rule worker_step.take_audio)
  then have r1: "reachable ((queued 7360 4800)\<lparr>audio_q := []\<rparr>)"
    using reachable.worker[OF r0] by (simp add: asr_dequeue_def queued_def)
  let ?s1 = "(queued 7360 4800)\<lparr>audio_q := []\<rparr>"
  have "worker_step ?s1 (?s1\<lparr>phase := dispatch TranscriptReady [] (phase ?s1)\<rparr>)"
    by (rule worker_step.worker_dispatch)
  then have "reachable (?s1\<lparr>phase := Thinking\<rparr>)"
    using reachable.worker[OF r1] by (simp add: queued_def dispatch_def dispatch_obs_def)
  then show ?thesis by (simp add: queued_def pondering_def)
qed

lemma reachable_replying_command: "reachable ((replying 4800)\<lparr>text_q := [''stop'']\<rparr>)"
proof -
  have "worker_step (replying 4800) ((replying 4800)\<lparr>text_q := text_q (replying 4800) @ [''stop'']\<rparr>)"
    by (rule worker_step.push_text)
  then have "reachable ((replying 4800)\<lparr>text_q := text_q (replying 4800) @ [''stop'']\<rparr>)"
    using reachable.worker[OF reachable_replying] by blast
  then show ?thesis by (simp add: replying_def)
qed

lemma step_replying:
  "iteration_at Speaking silent (replying p) = Some (cooling Speaking 0 True)"
  by (simp add: step_defs replying_def cooling_def)

lemma step_replying_command:
  "iteration silent ((replying p)\<lparr>text_q := q\<rparr>) = Some ((cooling Speaking 0 True)\<lparr>text_q := q\<rparr>)"
  by (simp add: step_defs replying_def cooling_def)

lemma step_cooling_arm:
  "iteration_at AwaitSpeech silent (cooling AwaitSpeech 0 True) = Some (cooling AwaitSpeech 29 False)"
  by (simp add: step_defs cooling_def)

lemma step_cooling:
  "0 < n \<Longrightarrow>
   iteration_at AwaitSpeech silent (cooling AwaitSpeech n False) = Some (cooling AwaitSpeech (n - 1) False)"
  by (simp add: step_defs cooling_def)

lemma step_pondering_voiced:
  "iteration voiced (pondering 4800 0) = Some (pondering 4800 1)"
  by (simp add: step_defs pondering_def replicate_add[symmetric])

lemma reachable_cooling_spoken: "reachable (cooling Speaking 0 True)"
  using reachable.audio[OF reachable_replying step_replying] .

lemma reachable_cooling_done: "reachable (cooling AwaitSpeech 0 True)"
proof -
  let ?s = "cooling Speaking 0 True"
  have "worker_step ?s (?s\<lparr>phase := dispatch TtsDone [] (phase ?s)\<rparr>)"
    by (rule worker_step.worker_dispatch)
  then have "reachable (?s\<lparr>phase := dispatch TtsDone [] (phase ?s)\<rparr>)"
    using reachable.worker[OF reachable_cooling_spoken] by blast
  then show ?thesis by (simp add: cooling_def dispatch_def dispatch_obs_def)
qed

lemma reachable_cooling_armed: "reachable (cooling AwaitSpeech 29 False)"
  using reachable.audio[OF reachable_cooling_done step_cooling_arm] .

lemma iteration_at_gated:
  assumes "0 \<le> ignore_frames s" "got inp = int frame_samples"
    "st = Speaking \<or> ignore_frames s \<noteq> 0 \<or> last_was_speaking s"
  shows "iteration_at st inp s = Some (mic_gate (arm_cooldown st s))"
  using assms
  by (auto simp: iteration_at_def arm_cooldown_def Let_def cooldown_frames_def frame_ms_def)

lemma arm_cooldown_idle:
  "st \<noteq> Speaking \<Longrightarrow> \<not> last_was_speaking s \<Longrightarrow> arm_cooldown st s = s"
  by (simp add: arm_cooldown_def Let_def)

lemma iteration_at_open:
  assumes "got inp = int frame_samples" "0 \<le> is_speech inp" "st \<noteq> Speaking"
    "ignore_frames s = 0" "\<not> last_was_speaking s"
  shows "iteration_at st inp s = Some (segment inp (update_preroll (frame inp) s))"
  using assms by (simp add: iteration_at_def Let_def arm_cooldown_idle)

lemma update_preroll_preroll:
  "preroll (update_preroll fr s) =
     drop (length (preroll s @ fr) - max_preroll_samples) (preroll s @ fr)"
  by (simp add: update_preroll_def Let_def del: drop_append)


text \<open>
  Claim C2, as stated, fails. After the audio loop alone has captured one utterance from
  \<open>boot_pipeline\<close> (three voiced frames, twenty unvoiced), the phase is \<open>Transcribing\<close> and
  the cooldown counter is zero; the next iteration does not discard its frame: the
  pre-roll buffer keeps its 4800 samples, and the utterance queue still holds the
  utterance at the end of the iteration. In the phase \<open>Thinking\<close>, reached once the ASR
  thread has taken that utterance and dispatched \<open>TranscriptReady\<close>, a voiced frame is
  not discarded either: it stays in the pre-roll and the voiced run counts it. And in
  the phase \<open>Speaking\<close>, with a command waiting on the command queue (the ASR thread
  appends commands whatever the phase is), the gated iteration leaves that command
  where it is: the command queue is not empty at the end of the iteration.
\<close>

theorem C2_counterexample:
  "audio_loop (replicate 3 voiced @ replicate 20 silent) boot_pipeline = Some (queued 7360 4800)
   \<and> phase (queued 7360 4800) = Transcribing
   \<and> ignore_frames (queued 7360 4800) = 0
   \<and> got silent = int frame_samples
   \<and> iteration silent (queued 7360 4800) = Some (queued 7360 4800)
   \<and> preroll (queued 7360 4800) = replicate 4800 0
   \<and> audio_q (queued 7360 4800) = [replicate 7360 0]
   \<and> reachable (pondering 4800 0)
   \<and> phase (pondering 4800 0) = Thinking
   \<and> ignore_frames (pondering 4800 0) = 0
   \<and> got voiced = int frame_samples
   \<and> iteration voiced (pondering 4800 0) = Some (pondering 4800 1)
   \<and> preroll (pondering 4800 1) = replicate 4800 0
   \<and> voiced_run (pondering 4800 1) = 1
   \<and> reachable ((replying 4800)\<lparr>text_q := [''stop'']\<rparr>)
   \<and> phase ((replying 4800)\<lparr>text_q := [''stop'']\<rparr>) = Speaking
   \<and> iteration silent ((replying 4800)\<lparr>text_q := [''stop'']\<rparr>) =
        Some ((cooling Speaking 0 True)\<lparr>text_q := [''stop'']\<rparr>)
   \<and> text_q ((cooling Speaking 0 True)\<lparr>text_q := [''stop'']\<rparr>) = [''stop'']"
proof -
  have "replicate (19 + 1) silent = replicate 19 silent @ replicate 1 silent"
    by (rule replicate_add)
  then have "replicate 20 silent = replicate 19 silent @ [silent]"
    by simp
  then have a: "audio_loop (replicate 3 voiced @ replicate 20 silent) boot_pipeline =
      Some (queued 7360 4800)"
    using run_utterance[of 0] by simp
  have b: "iteration silent (queued 7360 4800) = Some (queued 7360 4800)"
    using step_queued_silent[of 7360 4800] by simp
  have c: "iteration silent ((replying 4800)\<lparr>text_q := [''stop'']\<rparr>) =
        Some ((cooling Speaking 0 True)\<lparr>text_q := [''stop'']\<rparr>)"
    by (rule step_replying_command)
  show ?thesis
    using a b c reachable_pondering reachable_replying_command step_pondering_voiced
    by (simp add: queued_def silent_def voiced_def pondering_def replying_def cooling_def)
qed

text \<open>
  Claim C2, amended. What closes the gate is the phase \<open>st\<close> that the iteration read from
  the state machine, whether or not it is still the phase when the iteration ends. In a
  reachable state, an iteration that has read a full frame and read the phase
  \<open>Speaking\<close>, or finds the cooldown counter non-zero, or arms the cooldown itself
  (\<^verbatim>\<open>last_was_speaking\<close> set), discards the frame: it ends with the in-speech flag off,
  both run counters zero, the utterance and pre-roll buffers empty and the utterance
  queue empty. No other phase closes the gate, \<open>Transcribing\<close> and \<open>Thinking\<close> included:
  when the phase read is not \<open>Speaking\<close>, the counter is zero and \<^verbatim>\<open>last_was_speaking\<close> is
  clear, a full frame that the detector accepts is appended to the pre-roll (which keeps
  its last 4800 samples) and segmented, and the utterance queue keeps its content unless
  this iteration replaces it by the utterance it finishes. The command queue is not
  touched by any iteration, gated or not.
\<close>

theorem C2_gate_discards_and_clears_utterance_queue:
  "(reachable s \<and> got inp = int frame_samples
      \<and> (st = Speaking \<or> ignore_frames s \<noteq> 0 \<or> last_was_speaking s) \<longrightarrow>
      (\<exists>s'. iteration_at st inp s = Some s'
         \<and> \<not> in_speech s' \<and> voiced_run s' = 0 \<and> unvoiced_run s' = 0
         \<and> utterance s' = [] \<and> preroll s' = []
         \<and> audio_q s' = [] \<and> text_q s' = text_q s))
   \<and> (got cap = int frame_samples \<and> 0 \<le> is_speech cap
      \<and> st2 \<noteq> Speaking \<and> ignore_frames t = 0 \<and> \<not> last_was_speaking t \<longrightarrow>
      (\<exists>t'. iteration_at st2 cap t = Some t'
         \<and> t' = segment cap (update_preroll (frame cap) t)
         \<and> preroll t' =
             drop (length (preroll t @ frame cap) - max_preroll_samples) (preroll t @ frame cap)
         \<and> (audio_q t' = audio_q t \<or> audio_q t' = [utterance t @ frame cap])
         \<and> text_q t' = text_q t))
   \<and> iteration inp s = iteration_at (phase s) inp s
   \<and> (iteration_at st0 inp0 s0 = Some s1 \<longrightarrow> text_q s1 = text_q s0)"
proof (intro conjI impI)
  assume a: "reachable s \<and> got inp = int frame_samples
      \<and> (st = Speaking \<or> ignore_frames s \<noteq> 0 \<or> last_was_speaking s)"
  then have "0 \<le> ignore_frames s" using reachable_ignore_frames by blast
  then have "iteration_at st inp s = Some (mic_gate (arm_cooldown st s))"
    using a iteration_at_gated[of s inp st] by blast
  then show "\<exists>s'. iteration_at st inp s = Some s'
         \<and> \<not> in_speech s' \<and> voiced_run s' = 0 \<and> unvoiced_run s' = 0
         \<and> utterance s' = [] \<and> preroll s' = []
         \<and> audio_q s' = [] \<and> text_q s' = text_q s"
    by simp
next
  assume a: "got cap = int frame_samples \<and> 0 \<le> is_speech cap
      \<and> st2 \<noteq> Speaking \<and> ignore_frames t = 0 \<and> \<not> last_was_speaking t"
  let ?t' = "segment cap (update_preroll (frame cap) t)"
  have it: "iteration_at st2 cap t = Some ?t'"
    using a iteration_at_open[of cap st2 t] by blast
  have pr: "preroll ?t' =
      drop (length (preroll t @ frame cap) - max_preroll_samples) (preroll t @ frame cap)"
    by (simp add: update_preroll_preroll)
  have aq: "audio_q ?t' = audio_q t \<or> audio_q ?t' = [utterance t @ frame cap]"
    using segment_audio_q[of cap "update_preroll (frame cap) t"] by auto
  have tq: "text_q ?t' = text_q t" by simp
  show "\<exists>t'. iteration_at st2 cap t = Some t'
         \<and> t' = segment cap (update_preroll (frame cap) t)
         \<and> preroll t' =
             drop (length (preroll t @ frame cap) - max_preroll_samples) (preroll t @ frame cap)
         \<and> (audio_q t' = audio_q t \<or> audio_q t' = [utterance t @ frame cap])
         \<and> text_q t' = text_q t"
    using it pr aq tq by blast
next
  show "iteration inp s = iteration_at (phase s) inp s" by (rule iteration_def)
next
  assume "iteration_at st0 inp0 s0 = Some s1"
  then show "text_q s1 = text_q s0" by (rule iteration_at_text_q)
qed


theorem C2_gate_discards_and_clears_utterance_queue_witness:
  "reachable (replying 4800)
   \<and> got silent = int frame_samples
   \<and> preroll (replying 4800) = replicate 4800 0
   \<and> (\<exists>s'. iteration_at Speaking silent (replying 4800) = Some s'
         \<and> \<not> in_speech s' \<and> voiced_run s' = 0 \<and> unvoiced_run s' = 0
         \<and> utterance s' = [] \<and> preroll s' = []
         \<and> audio_q s' = [] \<and> text_q s' = text_q (replying 4800))
   \<and> reachable (cooling AwaitSpeech 29 False)
   \<and> ignore_frames (cooling AwaitSpeech 29 False) = 29
   \<and> iteration_at AwaitSpeech silent (cooling AwaitSpeech 29 False) =
        Some (cooling AwaitSpeech 28 False)
   \<and> (\<exists>s'. iteration_at AwaitSpeech silent (cooling AwaitSpeech 29 False) = Some s'
         \<and> \<not> in_speech s' \<and> voiced_run s' = 0 \<and> unvoiced_run s' = 0
         \<and> utterance s' = [] \<and> preroll s' = []
         \<and> audio_q s' = [] \<and> text_q s' = text_q (cooling AwaitSpeech 29 False))
   \<and> reachable (cooling AwaitSpeech 0 True)
   \<and> last_was_speaking (cooling AwaitSpeech 0 True)
   \<and> iteration_at AwaitSpeech silent (cooling AwaitSpeech 0 True) =
        Some (cooling AwaitSpeech 29 False)
   \<and> (\<exists>s'. iteration_at AwaitSpeech silent (cooling AwaitSpeech 0 True) = Some s'
         \<and> \<not> in_speech s' \<and> voiced_run s' = 0 \<and> unvoiced_run s' = 0
         \<and> utterance s' = [] \<and> preroll s' = []
         \<and> audio_q s' = [] \<and> text_q s' = text_q (cooling AwaitSpeech 0 True))
   \<and> reachable (pondering 4800 0)
   \<and> phase (pondering 4800 0) = Thinking
   \<and> preroll (pondering 4800 0) = replicate 4800 0
   \<and> (\<exists>s'. iteration_at Speaking silent (pondering 4800 0) = Some s'
         \<and> \<not> in_speech s' \<and> voiced_run s' = 0 \<and> unvoiced_run s' = 0
         \<and> utterance s' = [] \<and> preroll s' = []
         \<and> audio_q s' = [] \<and> text_q s' = text_q (pondering 4800 0))
   \<and> got voiced = int frame_samples
   \<and> 0 \<le> is_speech voiced
   \<and> (\<exists>t'. iteration_at Thinking voiced (pondering 4800 0) = Some t'
         \<and> t' = segment voiced (update_preroll (frame voiced) (pondering 4800 0))
         \<and> preroll t' =
             drop (length (preroll (pondering 4800 0) @ frame voiced) - max_preroll_samples)
               (preroll (pondering 4800 0) @ frame voiced)
         \<and> (audio_q t' = audio_q (pondering 4800 0) \<or> audio_q t' = [utterance (pondering 4800 0) @ frame voiced])
         \<and> text_q t' = text_q (pondering 4800 0))
   \<and> iteration_at Thinking voiced (pondering 4800 0) = Some (pondering 4800 1)
   \<and> (\<exists>t'. iteration_at Transcribing silent (queued 7360 4800) = Some t'
         \<and> t' = segment silent (update_preroll (frame silent) (queued 7360 4800))
         \<and> preroll t' =
             drop (length (preroll (queued 7360 4800) @ frame silent) - max_preroll_samples)
               (preroll (queued 7360 4800) @ frame silent)
         \<and> (audio_q t' = audio_q (queued 7360 4800) \<or> audio_q t' = [utterance (queued 7360 4800) @ frame silent])
         \<and> text_q t' = text_q (queued 7360 4800))
   \<and> iteration_at Transcribing silent (queued 7360 4800) = Some (queued 7360 4800)
   \<and> audio_q (queued 7360 4800) = [replicate 7360 0]"
proof -
  have gs: "got silent = int frame_samples" by (simp add: silent_def)
  have gv: "got voiced = int frame_samples" by (simp add: voiced_def)
  have iv: "0 \<le> is_speech voiced" by (simp add: voiced_def)
  have isl: "0 \<le> is_speech silent" by (simp add: silent_def)
  have r1: "reachable (replying 4800)" by (rule reachable_replying)
  have r2: "reachable (cooling AwaitSpeech 29 False)" by (rule reachable_cooling_armed)
  have r3: "reachable (cooling AwaitSpeech 0 True)" by (rule reachable_cooling_done)
  have r4: "reachable (pondering 4800 0)" by (rule reachable_pondering)
  have p1: "preroll (replying 4800) = replicate 4800 0" by (simp add: replying_def)
  have p4: "preroll (pondering 4800 0) = replicate 4800 0" by (simp add: pondering_def)
  have ph4: "phase (pondering 4800 0) = Thinking" by (simp add: pondering_def)
  have c2: "ignore_frames (cooling AwaitSpeech 29 False) = 29" by (simp add: cooling_def)
  have c3: "last_was_speaking (cooling AwaitSpeech 0 True)" by (simp add: cooling_def)
  have s2: "iteration_at AwaitSpeech silent (cooling AwaitSpeech 29 False) =
        Some (cooling AwaitSpeech 28 False)"
    using step_cooling[of 29] by simp
  have s3: "iteration_at AwaitSpeech silent (cooling AwaitSpeech 0 True) =
        Some (cooling AwaitSpeech 29 False)"
    by (rule step_cooling_arm)
  have s5: "iteration_at Thinking voiced (pondering 4800 0) = Some (pondering 4800 1)"
    using step_pondering_voiced by (simp add: iteration_def pondering_def)
  have s6: "iteration_at Transcribing silent (queued 7360 4800) = Some (queued 7360 4800)"
    using step_queued_silent[of 7360 4800] by (simp add: iteration_def queued_def)
  have q6: "audio_q (queued 7360 4800) = [replicate 7360 0]" by (simp add: queued_def)
  have h1: "reachable (replying 4800) \<and> got silent = int frame_samples
      \<and> (Speaking = Speaking \<or> ignore_frames (replying 4800) \<noteq> 0
          \<or> last_was_speaking (replying 4800))"
    using r1 gs by simp
  have h2: "reachable (cooling AwaitSpeech 29 False) \<and> got silent = int frame_samples
      \<and> (AwaitSpeech = Speaking \<or> ignore_frames (cooling AwaitSpeech 29 False) \<noteq> 0
          \<or> last_was_speaking (cooling AwaitSpeech 29 False))"
    using r2 gs c2 by simp
  have h3: "reachable (cooling AwaitSpeech 0 True) \<and> got silent = int frame_samples
      \<and> (AwaitSpeech = Speaking \<or> ignore_frames (cooling AwaitSpeech 0 True) \<noteq> 0
          \<or> last_was_speaking (cooling AwaitSpeech 0 True))"
    using r3 gs c3 by simp
  have h4: "reachable (pondering 4800 0) \<and> got silent = int frame_samples
      \<and> (Speaking = Speaking \<or> ignore_frames (pondering 4800 0) \<noteq> 0
          \<or> last_was_speaking (pondering 4800 0))"
    using r4 gs by simp
  have k1: "got voiced = int frame_samples \<and> 0 \<le> is_speech voiced
      \<and> Thinking \<noteq> Speaking \<and> ignore_frames (pondering 4800 0) = 0
      \<and> \<not> last_was_speaking (pondering 4800 0)"
    using gv iv by (simp add: pondering_def)
  have k2: "got silent = int frame_samples \<and> 0 \<le> is_speech silent
      \<and> Transcribing \<noteq> Speaking \<and> ignore_frames (queued 7360 4800) = 0
      \<and> \<not> last_was_speaking (queued 7360 4800)"
    using gs isl by (simp add: queued_def)
  have g1: "(\<exists>s'. iteration_at Speaking silent (replying 4800) = Some s'
         \<and> \<not> in_speech s' \<and> voiced_run s' = 0 \<and> unvoiced_run s' = 0
         \<and> utterance s' = [] \<and> preroll s' = []
         \<and> audio_q s' = [] \<and> text_q s' = text_q (replying 4800))"
    by (rule C2_gate_discards_and_clears_utterance_queue[where s = "replying 4800" and inp = silent and st = Speaking,
          THEN conjunct1, THEN mp, OF h1])
  have g2: "(\<exists>s'. iteration_at AwaitSpeech silent (cooling AwaitSpeech 29 False) = Some s'
         \<and> \<not> in_speech s' \<and> voiced_run s' = 0 \<and> unvoiced_run s' = 0
         \<and> utterance s' = [] \<and> preroll s' = []
         \<and> audio_q s' = [] \<and> text_q s' = text_q (cooling AwaitSpeech 29 False))"
    by (rule C2_gate_discards_and_clears_utterance_queue[where s = "cooling AwaitSpeech 29 False" and inp = silent
          and st = AwaitSpeech, THEN conjunct1, THEN mp, OF h2])
  have g3: "(\<exists>s'. iteration_at AwaitSpeech silent (cooling AwaitSpeech 0 True) = Some s'
         \<and> \<not> in_speech s' \<and> voiced_run s' = 0 \<and> unvoiced_run s' = 0
         \<and> utterance s' = [] \<and> preroll s' = []
         \<and> audio_q s' = [] \<and> text_q s' = text_q (cooling AwaitSpeech 0 True))"
    by (rule C2_gate_discards_and_clears_utterance_queue[where s = "cooling AwaitSpeech 0 True" and inp = silent
          and st = AwaitSpeech, THEN conjunct1, THEN mp, OF h3])
  have g4: "(\<exists>s'. iteration_at Speaking silent (pondering 4800 0) = Some s'
         \<and> \<not> in_speech s' \<and> voiced_run s' = 0 \<and> unvoiced_run s' = 0
         \<and> utterance s' = [] \<and> preroll s' = []
         \<and> audio_q s' = [] \<and> text_q s' = text_q (pondering 4800 0))"
    by (rule C2_gate_discards_and_clears_utterance_queue[where s = "pondering 4800 0" and inp = silent and st = Speaking,
          THEN conjunct1, THEN mp, OF h4])
  have o1: "(\<exists>t'. iteration_at Thinking voiced (pondering 4800 0) = Some t'
         \<and> t' = segment voiced (update_preroll (frame voiced) (pondering 4800 0))
         \<and> preroll t' =
             drop (length (preroll (pondering 4800 0) @ frame voiced) - max_preroll_samples)
               (preroll (pondering 4800 0) @ frame voiced)
         \<and> (audio_q t' = audio_q (pondering 4800 0) \<or> audio_q t' = [utterance (pondering 4800 0) @ frame voiced])
         \<and> text_q t' = text_q (pondering 4800 0))"
    by (rule C2_gate_discards_and_clears_utterance_queue[where t = "pondering 4800 0" and cap = voiced and ?st2.0 = Thinking,
          THEN conjunct2, THEN conjunct1, THEN mp, OF k1])
  have o2: "(\<exists>t'. iteration_at Transcribing silent (queued 7360 4800) = Some t'
         \<and> t' = segment silent (update_preroll (frame silent) (queued 7360 4800))
         \<and> preroll t' =
             drop (length (preroll (queued 7360 4800) @ frame silent) - max_preroll_samples)
               (preroll (queued 7360 4800) @ frame silent)
         \<and> (audio_q t' = audio_q (queued 7360 4800) \<or> audio_q t' = [utterance (queued 7360 4800) @ frame silent])
         \<and> text_q t' = text_q (queued 7360 4800))"
    by (rule C2_gate_discards_and_clears_utterance_queue[where t = "queued 7360 4800" and cap = silent and ?st2.0 = Transcribing,
          THEN conjunct2, THEN conjunct1, THEN mp, OF k2])
  show ?thesis
    using r1 gs p1 g1 r2 c2 s2 g2 r3 c3 s3 g3 r4 ph4 p4 g4 gv iv o1 s5 o2 s6 q6
    by (intro conjI) assumption+
qed

lemma iteration_at_speech_over:
  assumes "iteration_at st inp s = Some s'" "in_speech s" "\<not> in_speech s'"
  shows "utterance s' = []"
  using iteration_at_result[OF assms(1)] assms(2,3)
  by (auto simp: segment_def speech_end_def Let_def split: if_splits)

text \<open>
  Claim C4, as stated, fails on the upper bound: nothing in the loop limits the
  utterance. From \<open>boot_pipeline\<close>, 503 voiced frames followed by 20 unvoiced frames put an
  utterance of 167360 samples on the queue, more than the 160000 samples of 10 s.
\<close>

theorem C4_counterexample:
  "audio_loop (replicate 503 voiced @ replicate 20 silent) boot_pipeline =
     Some (queued 167360 4800)
   \<and> audio_q (queued 167360 4800) = [replicate 167360 0]
   \<and> 10 * sr < length (replicate 167360 (0::sample))"
proof -
  have a: "replicate (19 + 1) silent = replicate 19 silent @ replicate 1 silent"
    by (rule replicate_add)
  have b: "replicate (3 + 500) voiced = replicate 3 voiced @ replicate 500 voiced"
    by (rule replicate_add)
  have "audio_loop (replicate 3 voiced @ replicate 500 voiced @ replicate 19 silent @ [silent])
     boot_pipeline = Some (queued (7360 + 320 * 500) 4800)"
    by (rule run_utterance)
  then have "audio_loop (replicate 503 voiced @ replicate 20 silent) boot_pipeline =
     Some (queued 167360 4800)"
    using a b by simp
  then show ?thesis by (simp add: queued_def sr_def)
qed

text \<open>
  Claim C4, amended (no upper bound on the duration). In every reachable state the
  pre-roll buffer holds at most 15 frames (4800 samples) and every queued utterance has
  at least 200 ms (\<open>sr \<le> 5 * length u\<close>, that is, 3200 samples). Every reachable state that
  is in speech has a span \<open>P\<close>, \<open>F\<close>: the pre-roll copied at the speech start, of at most 4800
  samples, and the frames captured since while in speech; the utterance buffer is \<open>P\<close>
  followed by the frames of \<open>F\<close>. An iteration adds an utterance to the queue only when in
  speech, and what it adds is \<open>P\<close>, the frames of \<open>F\<close> and the frame just captured, it has
  at least 200 ms, and it is then alone on the queue; so a shorter utterance is never
  enqueued. When an iteration leaves speech, the utterance buffer is emptied.
\<close>

theorem C4_enqueued_utterance_shape:
  "(reachable s \<longrightarrow>
      length (preroll s) \<le> max_preroll_samples \<and> (\<forall>u\<in>set (audio_q s). sr \<le> 5 * length u))
   \<and> (reachable s \<and> in_speech s \<longrightarrow> (\<exists>P F. span s P F))
   \<and> (span s P F \<longrightarrow>
        in_speech s \<and> utterance s = P @ concat F \<and> length P \<le> max_preroll_samples)
   \<and> (iteration_at st inp s = Some s' \<and> u \<in> set (audio_q s') \<longrightarrow>
        u \<in> set (audio_q s) \<or> in_speech s)
   \<and> (span s P F \<and> iteration_at st inp s = Some s' \<and> u \<in> set (audio_q s') \<longrightarrow>
        u \<in> set (audio_q s)
        \<or> (u = P @ concat (F @ [frame inp]) \<and> sr \<le> 5 * length u \<and> audio_q s' = [u]))
   \<and> (iteration_at st inp s = Some s' \<and> in_speech s \<and> \<not> in_speech s' \<longrightarrow> utterance s' = [])"
proof (intro conjI impI)
  assume "reachable s"
  then show "length (preroll s) \<le> max_preroll_samples" by (rule reachable_preroll)
next
  assume "reachable s"
  then show "\<forall>u\<in>set (audio_q s). sr \<le> 5 * length u" using reachable_audio_q_min by blast
next
  assume "reachable s \<and> in_speech s"
  then show "\<exists>P F. span s P F" using span_complete by blast
next
  assume "span s P F"
  then show "in_speech s" using span_sound by blast
next
  assume "span s P F"
  then show "utterance s = P @ concat F" using span_sound by blast
next
  assume "span s P F"
  then show "length P \<le> max_preroll_samples" using span_sound by blast
next
  assume "iteration_at st inp s = Some s' \<and> u \<in> set (audio_q s')"
  then show "u \<in> set (audio_q s) \<or> in_speech s"
    using iteration_at_audio_q[of st inp s s'] by auto
next
  assume "span s P F \<and> iteration_at st inp s = Some s' \<and> u \<in> set (audio_q s')"
  then show "u \<in> set (audio_q s)
        \<or> (u = P @ concat (F @ [frame inp]) \<and> sr \<le> 5 * length u \<and> audio_q s' = [u])"
    using span_enqueue[of s P F st inp s' u] by blast
next
  assume "iteration_at st inp s = Some s' \<and> in_speech s \<and> \<not> in_speech s'"
  then show "utterance s' = []" using iteration_at_speech_over by blast
qed

theorem C4_enqueued_utterance_shape_witness:
  "reachable (capturing 7040 4800 19)
   \<and> in_speech (capturing 7040 4800 19)
   \<and> span (capturing 7040 4800 19) (replicate 960 0) (replicate 19 (frame silent))
   \<and> iteration_at CapturingSpeech silent (capturing 7040 4800 19) = Some (queued 7360 4800)
   \<and> replicate 7360 0 \<in> set (audio_q (queued 7360 4800))
   \<and> replicate 7360 0 \<notin> set (audio_q (capturing 7040 4800 19))
   \<and> \<not> in_speech (queued 7360 4800)
   \<and> length (preroll (capturing 7040 4800 19)) \<le> max_preroll_samples
   \<and> utterance (capturing 7040 4800 19) =
        replicate 960 0 @ concat (replicate 19 (frame silent))
   \<and> replicate 7360 0 =
        replicate 960 0 @ concat (replicate 19 (frame silent) @ [frame silent])
   \<and> sr \<le> 5 * length (replicate 7360 (0::sample))
   \<and> audio_q (queued 7360 4800) = [replicate 7360 0]
   \<and> utterance (queued 7360 4800) = []"
proof -
  have a: "reachable (capturing 7040 4800 19)" by (rule reachable_capturing_19)
  have b: "in_speech (capturing 7040 4800 19)" by (simp add: capturing_def)
  have c: "span (capturing 7040 4800 19) (replicate 960 0) (replicate 19 (frame silent))"
    by (rule span_capturing_19)
  have d: "iteration_at CapturingSpeech silent (capturing 7040 4800 19) = Some (queued 7360 4800)"
    using step_capturing_end[of 7040 4800] by (simp add: iteration_def capturing_def)
  have e: "replicate 7360 0 \<in> set (audio_q (queued 7360 4800))" by (simp add: queued_def)
  have f: "replicate 7360 0 \<notin> set (audio_q (capturing 7040 4800 19))"
    by (simp add: capturing_def)
  have g: "\<not> in_speech (queued 7360 4800)" by (simp add: queued_def)
  have h: "audio_q (queued 7360 4800) = [replicate 7360 0]" "utterance (queued 7360 4800) = []"
    by (simp_all add: queued_def)
  note t = C4_enqueued_utterance_shape[where s = "capturing 7040 4800 19"
      and P = "replicate 960 0" and F = "replicate 19 (frame silent)"
      and st = CapturingSpeech and inp = silent and s' = "queued 7360 4800"
      and u = "replicate 7360 0"]
  show ?thesis using t a b c d e f g h by blast
qed




end
